theory Spec2Isabelle
  imports Main "HOL-Library.Sublist"
begin

section \<open>The port scanner of \<^verbatim>\<open>PortScanner.go\<close>\<close>

text \<open>
  The theory embeds the Go package \<^verbatim>\<open>portscanner\<close>: the scanner configuration and its
  setters, the known-port table, the identification policy \<^verbatim>\<open>DescribePort\<close> with the
  predictor chain and the MySQL follow-up, and the concurrent sweep
  \<^verbatim>\<open>GetOpenedPorts\<close>.

  Go's \<^verbatim>\<open>int\<close> is modelled by \<open>int\<close>; the only arithmetic of the package is the
  \<^verbatim>\<open>port++\<close> of the sweep, whose wrap-around is written out in \<open>incr\<close>, for the
  64 bits that \<^verbatim>\<open>int\<close> has on a 64-bit platform.
  A Go \<^verbatim>\<open>string\<close> and a \<^verbatim>\<open>[]byte\<close> are byte sequences, modelled by \<open>string\<close>.
\<close>

subsection \<open>Constants and the scanner\<close>

definition UNKNOWN :: string where
  "UNKNOWN = ''<unknown>''"

text \<open>
  A value of the interface \<^verbatim>\<open>predictors.Predictor\<close> is a reference to a predictor
  instance. The two instances that the constructor allocates are \<open>ApachePredictor\<close> and
  \<open>NginxPredictor\<close> (their dynamic types differ, so they are different interface values);
  any other instance is \<open>Registered a\<close>, with \<open>a\<close> its address. Equality of this type is
  Go's \<^verbatim>\<open>==\<close> on the interface values.
\<close>

datatype predictor = ApachePredictor | NginxPredictor | Registered nat

record PortScanner =
  host :: string
  predictors :: "predictor list"
  timeout :: int
  threads :: int
  usePredictor :: bool

definition NewPortScanner :: "string \<Rightarrow> int \<Rightarrow> int \<Rightarrow> PortScanner" where
  "NewPortScanner h t n =
     \<lparr>host = h, predictors = [ApachePredictor, NginxPredictor], timeout = t,
      threads = n, usePredictor = True\<rparr>"

text \<open>The setters have pointer receivers: they return the updated scanner.\<close>

definition TogglePredictor :: "PortScanner \<Rightarrow> bool \<Rightarrow> PortScanner" where
  "TogglePredictor ps b = ps\<lparr>usePredictor := b\<rparr>"

definition SetThreads :: "PortScanner \<Rightarrow> int \<Rightarrow> PortScanner" where
  "SetThreads ps n = ps\<lparr>threads := n\<rparr>"

definition SetTimeout :: "PortScanner \<Rightarrow> int \<Rightarrow> PortScanner" where
  "SetTimeout ps t = ps\<lparr>timeout := t\<rparr>"

text \<open>
  The loop of \<^verbatim>\<open>RegisterPredictor\<close>: \<open>registered qs q\<close> is \<open>True\<close> when the loop
  over \<open>qs\<close> reaches its \<^verbatim>\<open>return\<close>.
\<close>

fun registered :: "predictor list \<Rightarrow> predictor \<Rightarrow> bool" where
  "registered [] q = False"
| "registered (p # qs) q = (if p = q then True else registered qs q)"

definition RegisterPredictor :: "PortScanner \<Rightarrow> predictor \<Rightarrow> PortScanner" where
  "RegisterPredictor ps q =
     (if registered (predictors ps) q then ps
      else ps\<lparr>predictors := predictors ps @ [q]\<rparr>)"

subsection \<open>The known-port table\<close>

definition KNOWN_PORTS :: "(int \<times> string) list" where
  "KNOWN_PORTS =
    [(21, ''FTP''),
     (22, ''SSH''),
     (23, ''Telnet''),
     (25, ''SMTP''),
     (53, ''DNS''),
     (66, ''Oracle SQL*NET?''),
     (69, ''TFTP''),
     (80, ''HTTP''),
     (88, ''Kerberos''),
     (109, ''POP2''),
     (110, ''POP3''),
     (118, ''SQL Service?''),
     (123, ''NTP''),
     (137, ''NetBIOS''),
     (139, ''NetBIOS''),
     (143, ''IMAP''),
     (150, ''SQL-Net?''),
     (194, ''IRC''),
     (443, ''HTTPS''),
     (445, ''Samba''),
     (465, ''SMTP over SSL''),
     (554, ''RTSP''),
     (5800, ''VNC Remote Desktop''),
     (631, ''CUPS''),
     (993, ''IMAP over SSL''),
     (995, ''POP3 over SSL''),
     (1433, ''Microsoft SQL Server''),
     (1434, ''Microsoft SQL Monitor''),
     (3306, ''MySQL''),
     (3389, ''Remote Desktop Protocol (RDP)''),
     (3396, ''Novell NDPS Printer Agent''),
     (3535, ''SMTP (Alternate)''),
     (5432, ''PostgreSQL''),
     (6379, ''Redis''),
     (8080, ''HTTP Alternate''),
     (9160, ''Cassandra''),
     (9200, ''Elasticsearch''),
     (11211, ''Memcached''),
     (27017, ''MongoDB''),
     (28017, ''MongoDB Web Admin'')]"

text \<open>
  \<^verbatim>\<open>predictPort\<close> reads nothing but the table, so the model has no argument for the
  network: it is a function of the port alone. Neither \<^verbatim>\<open>predictPort\<close> nor
  \<^verbatim>\<open>IsHttp\<close> uses its receiver, and the model leaves it out.
\<close>

definition predictPort :: "int \<Rightarrow> string" where
  "predictPort port =
     (case map_of KNOWN_PORTS port of Some desc \<Rightarrow> desc | None \<Rightarrow> UNKNOWN)"

definition IsHttp :: "int \<Rightarrow> bool" where
  "IsHttp port = (port = 80 \<or> port = 8080)"

subsection \<open>Formatting the address\<close>

definition digit_char :: "nat \<Rightarrow> char" where
  "digit_char d = ''0123456789'' ! d"

fun digits :: "nat \<Rightarrow> string" where
  "digits n =
     (if n < 10 then [digit_char n] else digits (n div 10) @ [digit_char (n mod 10)])"

declare digits.simps [simp del]

text \<open>The verb \<^verbatim>\<open>%d\<close> of \<^verbatim>\<open>fmt.Sprintf\<close>.\<close>

definition show_int :: "int \<Rightarrow> string" where
  "show_int i = (if i < 0 then ''-'' @ digits (nat (- i)) else digits (nat i))"

definition hostPort :: "PortScanner \<Rightarrow> int \<Rightarrow> string" where
  "hostPort ps port = host ps @ '':'' @ show_int port"

subsection \<open>The network\<close>

text \<open>
  Every call that leaves the process is recorded as an event, with its answer, at the
  end of a log. The network is a record of functions that give the answer of a call
  from the log so far and the call's arguments, so an answer may change from one call
  to the next. A connection is named by the length of the log when it was dialled.
\<close>

type_synonym conn = nat

datatype event =
    Resolve string "string option"
  | Dial string int bool
  | Close conn
  | Predict predictor string string
  | SetDeadline conn nat
  | Read conn nat string bool

text \<open>
  \<^item> \<open>resolve_tcp\<close>: \<^verbatim>\<open>net.ResolveTCPAddr("tcp4", host)\<close>, \<open>None\<close> for an error,
    \<open>Some a\<close> with \<open>a\<close> the \<^verbatim>\<open>String()\<close> of the address otherwise;
  \<^item> \<open>dial_timeout\<close>: \<^verbatim>\<open>net.DialTimeout("tcp", address, timeout)\<close>, \<open>True\<close> when the
    connection is established;
  \<^item> \<open>predict\<close>: \<^verbatim>\<open>predictor.Predict(host)\<close> of the given instance (the package
    \<^verbatim>\<open>predictors\<close> is not part of the sources, so its behaviour is a parameter);
  \<^item> \<open>conn_read\<close>: \<^verbatim>\<open>conn.Read(buf)\<close> with the size of \<open>buf\<close>: the bytes that
    arrive, and \<open>True\<close> when the error returned is not \<^verbatim>\<open>nil\<close>.
\<close>

record network =
  resolve_tcp :: "event list \<Rightarrow> string \<Rightarrow> string option"
  dial_timeout :: "event list \<Rightarrow> string \<Rightarrow> int \<Rightarrow> bool"
  predict :: "event list \<Rightarrow> predictor \<Rightarrow> string \<Rightarrow> string"
  conn_read :: "event list \<Rightarrow> conn \<Rightarrow> nat \<Rightarrow> string \<times> bool"

definition IsOpen :: "network \<Rightarrow> PortScanner \<Rightarrow> int \<Rightarrow> event list \<Rightarrow> bool \<times> event list" where
  "IsOpen nw ps port log =
     (let address = hostPort ps port in
      if dial_timeout nw log address (timeout ps)
      then (True, log @ [Dial address (timeout ps) True, Close (length log)])
      else (False, log @ [Dial address (timeout ps) False]))"

definition openConn :: "network \<Rightarrow> PortScanner \<Rightarrow> string \<Rightarrow> event list \<Rightarrow> conn option \<times> event list" where
  "openConn nw ps hp log =
     (case resolve_tcp nw log hp of
        None \<Rightarrow> (None, log @ [Resolve hp None])
      | Some tcpAddr \<Rightarrow>
          (let log1 = log @ [Resolve hp (Some tcpAddr)] in
           if dial_timeout nw log1 tcpAddr (timeout ps)
           then (Some (length log1), log1 @ [Dial tcpAddr (timeout ps) True])
           else (None, log1 @ [Dial tcpAddr (timeout ps) False])))"

text \<open>
  The loop of \<^verbatim>\<open>PredictUsingPredictor\<close>. Each \<^verbatim>\<open>defer conn.Close()\<close> pushes the
  connection on \<open>deferred\<close>; the closes run, last pushed first, when the function
  returns.
\<close>

definition run_deferred :: "conn list \<Rightarrow> event list \<Rightarrow> event list" where
  "run_deferred deferred log = log @ map Close deferred"

fun predict_loop ::
  "network \<Rightarrow> PortScanner \<Rightarrow> string \<Rightarrow> predictor list \<Rightarrow> conn list \<Rightarrow> event list
     \<Rightarrow> string \<times> event list" where
  "predict_loop nw ps hp [] deferred log = (UNKNOWN, run_deferred deferred log)"
| "predict_loop nw ps hp (p # rest) deferred log =
     (case openConn nw ps hp log of
        (None, log1) \<Rightarrow> predict_loop nw ps hp rest deferred log1
      | (Some c, log1) \<Rightarrow>
          (let result = predict nw log1 p hp;
               log2 = log1 @ [Predict p hp result]
           in if length result > 0 then (result, run_deferred (c # deferred) log2)
              else predict_loop nw ps hp rest (c # deferred) log2))"

definition PredictUsingPredictor ::
  "network \<Rightarrow> PortScanner \<Rightarrow> string \<Rightarrow> event list \<Rightarrow> string \<times> event list" where
  "PredictUsingPredictor nw ps hp log = predict_loop nw ps hp (predictors ps) [] log"

text \<open>
  \<^verbatim>\<open>getMySQLVersion\<close>: the buffer \<^verbatim>\<open>make([]byte, 20)\<close> holds twenty zero bytes;
  \<^verbatim>\<open>Read\<close> overwrites its first bytes with what arrives, and the function converts the
  whole buffer.
\<close>

definition getMySQLVersion ::
  "network \<Rightarrow> PortScanner \<Rightarrow> int \<Rightarrow> string \<Rightarrow> event list \<Rightarrow> string \<times> event list" where
  "getMySQLVersion nw ps port assumed log =
     (case openConn nw ps (hostPort ps port) log of
        (None, log1) \<Rightarrow> (assumed, log1)
      | (Some c, log1) \<Rightarrow>
          (let log2 = log1 @ [SetDeadline c 3];
               (arrived, err) = conn_read nw log2 c 20;
               received = take 20 arrived;
               result = received @ replicate (20 - length received) (CHR 0x00);
               log3 = log2 @ [Read c 20 received err]
           in if \<not> err then (assumed @ '' version: '' @ result, log3 @ [Close c])
              else (assumed, log3 @ [Close c])))"

definition DescribePort ::
  "network \<Rightarrow> PortScanner \<Rightarrow> int \<Rightarrow> event list \<Rightarrow> string \<times> event list" where
  "DescribePort nw ps port log =
     (if \<not> usePredictor ps then (predictPort port, log)
      else if IsHttp port then PredictUsingPredictor nw ps (hostPort ps port) log
      else
        (let assumed = predictPort port;
             (description, log1) =
                (if assumed = UNKNOWN
                 then PredictUsingPredictor nw ps (hostPort ps port) log
                 else (assumed, log))
         in if assumed = ''MySQL'' then getMySQLVersion nw ps port assumed log1
            else (description, log1)))"

subsection \<open>The sweep\<close>

text \<open>
  \<^verbatim>\<open>GetOpenedPorts\<close> runs one goroutine per port beside the calling goroutine. The
  model is the interleaving of their statements: a state holds the position of the
  caller, the positions of the goroutines, and the variables they share (the
  channel \<^verbatim>\<open>sem\<close>, the wait group, the mutex, the slice \<^verbatim>\<open>openPorts\<close>), and a
  schedule chooses who executes its next statement. A statement that would block is not
  executed: the step has no result. The goroutines share data only under the mutex,
  through the channel and through the wait group, and the scanner is a copy (the
  receiver is a value), so the interleavings of whole statements are the behaviours of
  the call.
\<close>

definition MAX_INT :: int where
  "MAX_INT = 9223372036854775807"

definition MIN_INT :: int where
  "MIN_INT = - 9223372036854775808"

text \<open>\<^verbatim>\<open>port++\<close> on a 64-bit \<^verbatim>\<open>int\<close>.\<close>

definition incr :: "int \<Rightarrow> int" where
  "incr port = (if port = MAX_INT then MIN_INT else port + 1)"

text \<open>
  The caller: \<open>MMake\<close> before \<^verbatim>\<open>make(chan struct{}, ps.threads)\<close>, which panics on a
  negative size; \<open>MLoop port\<close> before the test \<^verbatim>\<open>port <= end\<close>; \<open>MSend port\<close> before
  \<^verbatim>\<open>sem <- struct{}{}\<close>; \<open>MAdd port\<close> before \<^verbatim>\<open>wg.Add(1)\<close>; \<open>MGo port\<close> before the
  \<^verbatim>\<open>go\<close> statement; \<open>MIncr port\<close> before \<^verbatim>\<open>port++\<close>; \<open>MWait\<close> in
  \<^verbatim>\<open>wg.Wait()\<close>; \<open>MReturn\<close> before \<^verbatim>\<open>return openPorts\<close>; \<open>MReturned r\<close> after it,
  with the value \<open>r\<close> returned; \<open>MPanic\<close> after a panic, which ends the process.
\<close>

datatype mainpc =
    MMake | MLoop int | MSend int | MAdd int | MGo int | MIncr int
  | MWait | MReturn | MReturned "int list" | MPanic

text \<open>
  A goroutine: \<open>WProbe\<close> from its start until \<^verbatim>\<open>ps.IsOpen(port)\<close> has returned;
  \<open>WLock\<close> before \<^verbatim>\<open>mu.Lock()\<close>; \<open>WAppend\<close> before the \<^verbatim>\<open>append\<close>; \<open>WUnlock\<close>
  before \<^verbatim>\<open>mu.Unlock()\<close>; \<open>WRecv\<close> before \<^verbatim>\<open><-sem\<close>; \<open>WDone\<close> before the deferred
  \<^verbatim>\<open>wg.Done()\<close>; \<open>WExit\<close> when it has ended.
\<close>

datatype wpc = WProbe | WLock | WAppend | WUnlock | WRecv | WDone | WExit

record gstate =
  mainpc :: mainpc
  sem :: nat
  wg :: int
  mu :: bool
  openPorts :: "int list"
  workers :: "(int \<times> wpc) list"
  netlog :: "event list"

text \<open>
  \<open>sem\<close> is the number of elements in the channel's buffer, \<open>wg\<close> the counter of the
  wait group, \<open>mu\<close> is \<open>True\<close> while the mutex is locked, \<open>workers\<close> holds the goroutines
  in the order of their creation, each with the port it was given.
\<close>

definition init :: "event list \<Rightarrow> gstate" where
  "init log =
     \<lparr>mainpc = MMake, sem = 0, wg = 0, mu = False, openPorts = [], workers = [],
      netlog = log\<rparr>"

definition main_step :: "PortScanner \<Rightarrow> int \<Rightarrow> int \<Rightarrow> gstate \<Rightarrow> gstate option" where
  "main_step ps start endp s =
     (case mainpc s of
        MMake \<Rightarrow>
          if threads ps < 0 then Some (s\<lparr>mainpc := MPanic\<rparr>)
          else Some (s\<lparr>mainpc := MLoop start\<rparr>)
      | MLoop port \<Rightarrow>
          if port \<le> endp then Some (s\<lparr>mainpc := MSend port\<rparr>)
          else Some (s\<lparr>mainpc := MWait\<rparr>)
      | MSend port \<Rightarrow>
          if sem s < nat (threads ps) then Some (s\<lparr>mainpc := MAdd port, sem := sem s + 1\<rparr>)
          else None
      | MAdd port \<Rightarrow> Some (s\<lparr>mainpc := MGo port, wg := wg s + 1\<rparr>)
      | MGo port \<Rightarrow> Some (s\<lparr>mainpc := MIncr port, workers := workers s @ [(port, WProbe)]\<rparr>)
      | MIncr port \<Rightarrow> Some (s\<lparr>mainpc := MLoop (incr port)\<rparr>)
      | MWait \<Rightarrow> if wg s = 0 then Some (s\<lparr>mainpc := MReturn\<rparr>) else None
      | MReturn \<Rightarrow> Some (s\<lparr>mainpc := MReturned (openPorts s)\<rparr>)
      | MReturned r \<Rightarrow> None
      | MPanic \<Rightarrow> None)"

text \<open>
  A send on a channel whose buffer is empty, while a goroutine waits in \<^verbatim>\<open><-sem\<close>,
  hands the element over to that goroutine; on a channel of capacity 0 this is the
  only way a send completes.
\<close>

definition handoff_step :: "nat \<Rightarrow> gstate \<Rightarrow> gstate option" where
  "handoff_step i s =
     (case mainpc s of
        MSend port \<Rightarrow>
          if sem s = 0 \<and> i < length (workers s) \<and> snd (workers s ! i) = WRecv
          then Some (s\<lparr>mainpc := MAdd port,
                       workers := (workers s)[i := (fst (workers s ! i), WDone)]\<rparr>)
          else None
      | _ \<Rightarrow> None)"

text \<open>
  The statements of goroutine \<open>i\<close>. \<^verbatim>\<open>mu.Unlock()\<close> of an unlocked mutex and
  \<^verbatim>\<open>wg.Done()\<close> at counter 0 end the process, as the library does.
\<close>

definition worker_step :: "network \<Rightarrow> PortScanner \<Rightarrow> nat \<Rightarrow> gstate \<Rightarrow> gstate option" where
  "worker_step nw ps i s =
     (if i < length (workers s) then
        (case workers s ! i of (port, pc) \<Rightarrow>
           (case pc of
              WProbe \<Rightarrow>
                (case IsOpen nw ps port (netlog s) of (opened, log') \<Rightarrow>
                   Some (s\<lparr>workers := (workers s)[i := (port, if opened then WLock else WRecv)],
                           netlog := log'\<rparr>))
            | WLock \<Rightarrow>
                if mu s then None
                else Some (s\<lparr>mu := True, workers := (workers s)[i := (port, WAppend)]\<rparr>)
            | WAppend \<Rightarrow>
                Some (s\<lparr>openPorts := openPorts s @ [port],
                        workers := (workers s)[i := (port, WUnlock)]\<rparr>)
            | WUnlock \<Rightarrow>
                if mu s then Some (s\<lparr>mu := False, workers := (workers s)[i := (port, WRecv)]\<rparr>)
                else Some (s\<lparr>mainpc := MPanic\<rparr>)
            | WRecv \<Rightarrow>
                if 0 < sem s
                then Some (s\<lparr>sem := sem s - 1, workers := (workers s)[i := (port, WDone)]\<rparr>)
                else None
            | WDone \<Rightarrow>
                if 0 < wg s
                then Some (s\<lparr>wg := wg s - 1, workers := (workers s)[i := (port, WExit)]\<rparr>)
                else Some (s\<lparr>mainpc := MPanic\<rparr>)
            | WExit \<Rightarrow> None))
      else None)"

datatype action = Main | Handoff nat | Worker nat

definition step ::
  "network \<Rightarrow> PortScanner \<Rightarrow> int \<Rightarrow> int \<Rightarrow> action \<Rightarrow> gstate \<Rightarrow> gstate option" where
  "step nw ps start endp a s =
     (if mainpc s = MPanic then None
      else case a of
             Main \<Rightarrow> main_step ps start endp s
           | Handoff i \<Rightarrow> handoff_step i s
           | Worker i \<Rightarrow> worker_step nw ps i s)"

fun run ::
  "network \<Rightarrow> PortScanner \<Rightarrow> int \<Rightarrow> int \<Rightarrow> action list \<Rightarrow> gstate \<Rightarrow> gstate option" where
  "run nw ps start endp [] s = Some s"
| "run nw ps start endp (a # sched) s =
     (case step nw ps start endp a s of
        None \<Rightarrow> None
      | Some s' \<Rightarrow> run nw ps start endp sched s')"

text \<open>
  \<open>GetOpenedPorts nw ps start endp sched log\<close> is the state that the call reaches under
  the schedule \<open>sched\<close>, started with the log \<open>log\<close>, or \<open>None\<close> when the schedule asks
  for a statement that is blocked. The call has returned \<open>r\<close> in a state whose \<open>mainpc\<close>
  is \<open>MReturned r\<close>.
\<close>

definition GetOpenedPorts ::
  "network \<Rightarrow> PortScanner \<Rightarrow> int \<Rightarrow> int \<Rightarrow> action list \<Rightarrow> event list \<Rightarrow> gstate option" where
  "GetOpenedPorts nw ps start endp sched log = run nw ps start endp sched (init log)"

text \<open>The probes in flight: the goroutines whose \<^verbatim>\<open>IsOpen\<close> has not returned.\<close>

definition in_flight :: "gstate \<Rightarrow> nat" where
  "in_flight s = length (filter (\<lambda>w. snd w = WProbe) (workers s))"

subsection \<open>Reading a log\<close>

text \<open>
  What a stretch of the log says: the calls of \<^verbatim>\<open>Predict\<close> with their answers, the
  number of connection attempts (each starts with a \<open>Resolve\<close>), and the number of
  connections established.
\<close>

fun predict_calls :: "event list \<Rightarrow> (predictor \<times> string) list" where
  "predict_calls [] = []"
| "predict_calls (Predict p hp r # es) = (p, r) # predict_calls es"
| "predict_calls (e # es) = predict_calls es"

fun conn_attempts :: "event list \<Rightarrow> nat" where
  "conn_attempts [] = 0"
| "conn_attempts (Resolve hp a # es) = Suc (conn_attempts es)"
| "conn_attempts (e # es) = conn_attempts es"

fun conn_opened :: "event list \<Rightarrow> nat" where
  "conn_opened [] = 0"
| "conn_opened (Dial a t True # es) = Suc (conn_opened es)"
| "conn_opened (e # es) = conn_opened es"

subsection \<open>A scanner and a network to compute with\<close>

text \<open>
  On the network \<open>nw_up\<close> every address resolves to itself and accepts a connection,
  the nginx predictor answers \<open>nginx\<close>, every other predictor answers nothing, and a
  read delivers the five bytes \<open>5.7.1\<close> without error.
\<close>

definition nw_up :: network where
  "nw_up =
     \<lparr>resolve_tcp = (\<lambda>log hp. Some hp),
      dial_timeout = (\<lambda>log a t. True),
      predict = (\<lambda>log p hp. if p = NginxPredictor then ''nginx'' else []),
      conn_read = (\<lambda>log c n. (''5.7.1'', False))\<rparr>"

definition scanner0 :: PortScanner where
  "scanner0 = NewPortScanner ''db'' 1000 4"

text \<open>
  \<open>scanner1\<close> has one thread and \<open>scanner_neg\<close> a negative thread count.
  \<open>blocked_state\<close> is the state of a sweep of the ports 1 and 2 by \<open>scanner1\<close> in
  which the probe of port 1 is in flight and the caller stands before the send for port
  2. \<open>sweep_schedule\<close> is a complete execution of the sweep of port 1 alone, and
  \<open>returned_state\<close> the state it ends in.
\<close>

definition scanner1 :: PortScanner where
  "scanner1 = SetThreads scanner0 1"

definition scanner_neg :: PortScanner where
  "scanner_neg = SetThreads scanner0 (- 1)"

definition blocked_state :: gstate where
  "blocked_state =
     \<lparr>mainpc = MSend 2, sem = 1, wg = 1, mu = False, openPorts = [],
      workers = [(1, WProbe)], netlog = []\<rparr>"

definition sweep_schedule :: "action list" where
  "sweep_schedule =
     [Main, Main, Main, Main, Main, Main, Main,
      Worker 0, Worker 0, Worker 0, Worker 0, Worker 0, Worker 0, Main, Main]"

definition returned_state :: gstate where
  "returned_state =
     \<lparr>mainpc = MReturned [1], sem = 0, wg = 0, mu = False, openPorts = [1],
      workers = [(1, WExit)], netlog = [Dial ''db:1'' 1000 True, Close 0]\<rparr>"

subsection \<open>Invariants of the sweep\<close>

text \<open>
  \<open>count_pc P ws\<close> is the number of goroutines whose position satisfies \<open>P\<close>. A
  goroutine is \<open>holding\<close> a slot of the channel until it has received from it, \<open>live\<close>
  until its \<^verbatim>\<open>wg.Done()\<close>, \<open>critical\<close> while it holds the mutex, \<open>post\<close> when it
  will not append any more, and \<open>found\<close> between a successful probe and the release of
  the mutex. \<open>wnext\<close> is the order of the positions of a goroutine.
\<close>

definition count_pc :: "(wpc \<Rightarrow> bool) \<Rightarrow> (int \<times> wpc) list \<Rightarrow> nat" where
  "count_pc P ws = length (filter (\<lambda>w. P (snd w)) ws)"

definition holding :: "wpc \<Rightarrow> bool" where
  "holding pc \<longleftrightarrow> pc = WProbe \<or> pc = WLock \<or> pc = WAppend \<or> pc = WUnlock \<or> pc = WRecv"

definition live :: "wpc \<Rightarrow> bool" where
  "live pc \<longleftrightarrow> pc \<noteq> WExit"

definition critical :: "wpc \<Rightarrow> bool" where
  "critical pc \<longleftrightarrow> pc = WAppend \<or> pc = WUnlock"

definition post :: "wpc \<Rightarrow> bool" where
  "post pc \<longleftrightarrow> pc = WUnlock \<or> pc = WRecv \<or> pc = WDone \<or> pc = WExit"

definition found :: "wpc \<Rightarrow> bool" where
  "found pc \<longleftrightarrow> pc = WLock \<or> pc = WAppend \<or> pc = WUnlock"

fun wnext :: "wpc \<Rightarrow> wpc \<Rightarrow> bool" where
  "wnext WProbe pc' = (pc' = WLock \<or> pc' = WRecv)"
| "wnext WLock pc' = (pc' = WAppend)"
| "wnext WAppend pc' = (pc' = WUnlock)"
| "wnext WUnlock pc' = (pc' = WRecv)"
| "wnext WRecv pc' = (pc' = WDone)"
| "wnext WDone pc' = (pc' = WExit)"
| "wnext WExit pc' = False"

text \<open>
  Between the send and the \<^verbatim>\<open>go\<close> statement the caller has taken a slot for a
  goroutine that does not exist yet, and between \<^verbatim>\<open>wg.Add(1)\<close> and the \<^verbatim>\<open>go\<close>
  statement it has counted one.
\<close>

fun pending_sem :: "mainpc \<Rightarrow> nat" where
  "pending_sem (MAdd port) = 1"
| "pending_sem (MGo port) = 1"
| "pending_sem pc = 0"

fun pending_wg :: "mainpc \<Rightarrow> int" where
  "pending_wg (MGo port) = 1"
| "pending_wg pc = 0"

text \<open>
  \<open>sem_inv\<close>: the channel holds at most \<open>threads\<close> elements, one for each goroutine
  holding a slot; the wait group counts the live goroutines; the mutex is locked exactly
  when one goroutine is in the critical section; there is no goroutine before the
  channel is made, nor after a panic.
\<close>

definition sem_inv :: "PortScanner \<Rightarrow> gstate \<Rightarrow> bool" where
  "sem_inv ps s \<longleftrightarrow>
     sem s \<le> nat (threads ps) \<and>
     count_pc holding (workers s) + pending_sem (mainpc s) = sem s \<and>
     int (count_pc live (workers s)) + pending_wg (mainpc s) = wg s \<and>
     count_pc critical (workers s) = (if mu s then 1 else 0) \<and>
     (mainpc s = MMake \<or> mainpc s = MPanic \<longrightarrow> workers s = [])"

text \<open>
  The counter of the loop does not wrap when the bound is below \<open>MAX_INT\<close> (or when the
  start is above it, which no Go \<^verbatim>\<open>int\<close> is). Then \<open>ports_inv\<close> holds: the goroutines
  created so far were given the ports from \<open>start\<close> up to the counter, in ascending
  order, and after the return all of them have ended. \<open>result_inv\<close>: no port is twice in
  \<^verbatim>\<open>openPorts\<close>, and each is the port of a goroutine that will not append any more.
  \<open>log_inv\<close>: the log has grown by a dial for every goroutine that has left its probe,
  and by a successful one for every goroutine on its way to append and for every port in
  \<^verbatim>\<open>openPorts\<close>.
\<close>

definition no_wrap :: "int \<Rightarrow> int \<Rightarrow> bool" where
  "no_wrap start endp \<longleftrightarrow> endp < MAX_INT \<or> MAX_INT < start"

definition ports_inv :: "int \<Rightarrow> int \<Rightarrow> gstate \<Rightarrow> bool" where
  "ports_inv start endp s \<longleftrightarrow>
     (case mainpc s of
        MMake \<Rightarrow> workers s = []
      | MLoop p \<Rightarrow> map fst (workers s) = [start..p - 1] \<and> start \<le> p \<and> (p \<le> endp + 1 \<or> p = start)
      | MSend p \<Rightarrow> map fst (workers s) = [start..p - 1] \<and> start \<le> p \<and> p \<le> endp
      | MAdd p \<Rightarrow> map fst (workers s) = [start..p - 1] \<and> start \<le> p \<and> p \<le> endp
      | MGo p \<Rightarrow> map fst (workers s) = [start..p - 1] \<and> start \<le> p \<and> p \<le> endp
      | MIncr p \<Rightarrow> map fst (workers s) = [start..p] \<and> start \<le> p \<and> p \<le> endp
      | MWait \<Rightarrow> map fst (workers s) = [start..endp]
      | MReturn \<Rightarrow> map fst (workers s) = [start..endp] \<and> count_pc live (workers s) = 0
      | MReturned r \<Rightarrow>
          map fst (workers s) = [start..endp] \<and> r = openPorts s \<and>
          count_pc live (workers s) = 0
      | MPanic \<Rightarrow> True)"

definition result_inv :: "gstate \<Rightarrow> bool" where
  "result_inv s \<longleftrightarrow>
     distinct (openPorts s) \<and>
     (\<forall>x \<in> set (openPorts s).
        \<exists>j < length (workers s). fst (workers s ! j) = x \<and> post (snd (workers s ! j)))"

definition log_inv :: "PortScanner \<Rightarrow> event list \<Rightarrow> gstate \<Rightarrow> bool" where
  "log_inv ps log s \<longleftrightarrow>
     (\<exists>new. netlog s = log @ new \<and>
        (\<forall>j < length (workers s). snd (workers s ! j) \<noteq> WProbe \<longrightarrow>
           (\<exists>ok. Dial (hostPort ps (fst (workers s ! j))) (timeout ps) ok \<in> set new)) \<and>
        (\<forall>j < length (workers s). found (snd (workers s ! j)) \<longrightarrow>
           Dial (hostPort ps (fst (workers s ! j))) (timeout ps) True \<in> set new) \<and>
        (\<forall>x \<in> set (openPorts s). Dial (hostPort ps x) (timeout ps) True \<in> set new))"

definition sweep_inv :: "PortScanner \<Rightarrow> int \<Rightarrow> int \<Rightarrow> event list \<Rightarrow> gstate \<Rightarrow> bool" where
  "sweep_inv ps start endp log s \<longleftrightarrow>
     sem_inv ps s \<and> ports_inv start endp s \<and> result_inv s \<and> log_inv ps log s"

text \<open>
  When the counter does wrap (\<open>start \<le> MAX_INT \<le> endp\<close>), the test of the loop never
  fails: the caller neither waits nor returns.
\<close>

definition wrap_inv :: "gstate \<Rightarrow> bool" where
  "wrap_inv s \<longleftrightarrow>
     (case mainpc s of
        MLoop p \<Rightarrow> p \<le> MAX_INT
      | MSend p \<Rightarrow> p \<le> MAX_INT
      | MAdd p \<Rightarrow> p \<le> MAX_INT
      | MGo p \<Rightarrow> p \<le> MAX_INT
      | MIncr p \<Rightarrow> p \<le> MAX_INT
      | MWait \<Rightarrow> False
      | MReturn \<Rightarrow> False
      | MReturned r \<Rightarrow> False
      | _ \<Rightarrow> True)"

text \<open>
  A bound on the steps that are left: \<open>wrank\<close> counts the statements a goroutine has
  before it, \<open>main_rank\<close> those of the caller together with those of the goroutines
  it will still create (eleven for each port not yet submitted).
\<close>

fun wrank :: "wpc \<Rightarrow> nat" where
  "wrank WProbe = 6"
| "wrank WLock = 5"
| "wrank WAppend = 4"
| "wrank WUnlock = 3"
| "wrank WRecv = 2"
| "wrank WDone = 1"
| "wrank WExit = 0"

fun main_rank :: "int \<Rightarrow> int \<Rightarrow> mainpc \<Rightarrow> nat" where
  "main_rank start endp MMake = 11 * nat (endp + 1 - start) + 4"
| "main_rank start endp (MLoop p) = 11 * nat (endp + 1 - p) + 3"
| "main_rank start endp (MSend p) = 11 * nat (endp + 1 - p) + 2"
| "main_rank start endp (MAdd p) = 11 * nat (endp + 1 - p) + 1"
| "main_rank start endp (MGo p) = 11 * nat (endp + 1 - p)"
| "main_rank start endp (MIncr p) = 11 * nat (endp - p) + 4"
| "main_rank start endp MWait = 2"
| "main_rank start endp MReturn = 1"
| "main_rank start endp (MReturned r) = 0"
| "main_rank start endp MPanic = 0"

definition steps_left :: "int \<Rightarrow> int \<Rightarrow> gstate \<Rightarrow> nat" where
  "steps_left start endp s =
     main_rank start endp (mainpc s) + sum_list (map (\<lambda>w. wrank (snd w)) (workers s))"

text \<open>
  The states of a sweep of an empty range: the \<open>n\<close>-th has the caller at the \<open>n\<close>-th of
  its five positions and everything else as at the start.
\<close>

definition empty_sweep :: "int \<Rightarrow> event list \<Rightarrow> nat \<Rightarrow> gstate" where
  "empty_sweep start log n =
     (init log)\<lparr>mainpc := [MMake, MLoop start, MWait, MReturn, MReturned []] ! n\<rparr>"

section \<open>Properties\<close>

subsection \<open>Auxiliary facts\<close>

lemma registered_iff: "registered qs q \<longleftrightarrow> q \<in> set qs"
  by (induction qs) auto

lemma usePredictor_scanner0: "usePredictor scanner0"
  by (simp add: scanner0_def NewPortScanner_def)

lemma timeout_scanner0: "timeout scanner0 = 1000"
  by (simp add: scanner0_def NewPortScanner_def)

lemma hostPort_scanner0_80: "hostPort scanner0 80 = ''db:80''"
  by (simp add: hostPort_def scanner0_def NewPortScanner_def show_int_def digits.simps
      digit_char_def)

lemma hostPort_scanner0_81: "hostPort scanner0 81 = ''db:81''"
  by (simp add: hostPort_def scanner0_def NewPortScanner_def show_int_def digits.simps
      digit_char_def)

lemma hostPort_scanner0_3306: "hostPort scanner0 3306 = ''db:3306''"
  by (simp add: hostPort_def scanner0_def NewPortScanner_def show_int_def digits.simps
      digit_char_def)

lemma predictPort_3306: "predictPort 3306 = ''MySQL''"
  by (simp add: predictPort_def KNOWN_PORTS_def)

lemma predictPort_80: "predictPort 80 = ''HTTP''"
  by (simp add: predictPort_def KNOWN_PORTS_def)

lemma predictPort_443: "predictPort 443 = ''HTTPS''"
  by (simp add: predictPort_def KNOWN_PORTS_def)

lemma predictPort_81: "predictPort 81 = UNKNOWN"
  by (simp add: predictPort_def KNOWN_PORTS_def)

lemma chain_nw_up:
  "PredictUsingPredictor nw_up scanner0 hp [] =
     (''nginx'', [Resolve hp (Some hp), Dial hp 1000 True, Predict ApachePredictor hp [],
        Resolve hp (Some hp), Dial hp 1000 True, Predict NginxPredictor hp ''nginx'',
        Close 4, Close 1])"
  by (simp add: PredictUsingPredictor_def scanner0_def NewPortScanner_def openConn_def
      nw_up_def run_deferred_def Let_def)

lemma predict_calls_append: "predict_calls (es @ fs) = predict_calls es @ predict_calls fs"
  by (induction es rule: predict_calls.induct) auto

lemma conn_attempts_append: "conn_attempts (es @ fs) = conn_attempts es + conn_attempts fs"
  by (induction es rule: conn_attempts.induct) auto

lemma conn_opened_append: "conn_opened (es @ fs) = conn_opened es + conn_opened fs"
  by (induction es rule: conn_opened.induct) auto

lemma predict_calls_Close: "predict_calls (map Close cs) = []"
  by (induction cs) auto

lemma conn_attempts_Close: "conn_attempts (map Close cs) = 0"
  by (induction cs) auto

lemma conn_opened_Close: "conn_opened (map Close cs) = 0"
  by (induction cs) auto

lemma openConn_log:
  "openConn nw ps hp log = (c, log1) \<Longrightarrow>
   \<exists>ev. log1 = log @ ev \<and> predict_calls ev = [] \<and> conn_attempts ev = 1 \<and>
      conn_opened ev = (if c = None then 0 else 1)"
  by (auto simp: openConn_def Let_def split: option.splits if_splits)

text \<open>
  The loop of the predictor chain, from any position in the list of predictors: what it
  adds to the log and what it returns.
\<close>

lemma predict_loop_chain:
  "predict_loop nw ps hp qs ds log = (r, log') \<Longrightarrow>
   \<exists>new. log' = log @ new \<and> subseq (map fst (predict_calls new)) qs \<and>
     length (predict_calls new) = conn_opened new \<and>
     ((r = UNKNOWN \<and> (\<forall>c \<in> set (predict_calls new). snd c = []) \<and>
         conn_attempts new = length qs)
      \<or> (\<exists>pre i. predict_calls new = pre @ [(qs ! i, r)] \<and> r \<noteq> [] \<and>
            (\<forall>c \<in> set pre. snd c = []) \<and> i < length qs \<and> conn_attempts new = i + 1))"
proof (induction qs arbitrary: ds log)
  case Nil
  then show ?case
    by (auto simp: run_deferred_def predict_calls_Close conn_attempts_Close conn_opened_Close)
next
  case (Cons p rest)
  let ?Q = "\<lambda>qs new. subseq (map fst (predict_calls new)) qs \<and>
     length (predict_calls new) = conn_opened new \<and>
     ((r = UNKNOWN \<and> (\<forall>c \<in> set (predict_calls new). snd c = []) \<and>
         conn_attempts new = length qs)
      \<or> (\<exists>pre i. predict_calls new = pre @ [(qs ! i, r)] \<and> r \<noteq> [] \<and>
            (\<forall>c \<in> set pre. snd c = []) \<and> i < length qs \<and> conn_attempts new = i + 1))"
  obtain c log1 where oc: "openConn nw ps hp log = (c, log1)"
    by (cases "openConn nw ps hp log")
  then obtain ev where ev: "log1 = log @ ev" "predict_calls ev = []" "conn_attempts ev = 1"
    "conn_opened ev = (if c = None then 0 else 1)"
    using openConn_log by blast
  show ?case
  proof (cases c)
    case None
    with Cons.prems oc have "predict_loop nw ps hp rest ds log1 = (r, log')"
      by simp
    from Cons.IH [OF this] obtain new where new: "log' = log1 @ new" "?Q rest new"
      by blast
    have a: "log' = log @ (ev @ new)" using new(1) ev(1) by simp
    have b: "predict_calls (ev @ new) = predict_calls new"
      by (simp add: predict_calls_append ev)
    have c: "conn_attempts (ev @ new) = Suc (conn_attempts new)"
      by (simp add: conn_attempts_append ev)
    have o: "conn_opened (ev @ new) = conn_opened new"
      by (simp add: conn_opened_append ev None)
    have d: "subseq (map fst (predict_calls (ev @ new))) (p # rest)"
      using new(2) b by (simp add: list_emb_Cons)
    have e: "length (predict_calls (ev @ new)) = conn_opened (ev @ new)"
      using new(2) b o by simp
    from new(2) have "(r = UNKNOWN \<and> (\<forall>c \<in> set (predict_calls new). snd c = []) \<and>
         conn_attempts new = length rest)
      \<or> (\<exists>pre i. predict_calls new = pre @ [(rest ! i, r)] \<and> r \<noteq> [] \<and>
            (\<forall>c \<in> set pre. snd c = []) \<and> i < length rest \<and> conn_attempts new = i + 1)"
      by blast
    then have "?Q (p # rest) (ev @ new)"
    proof
      assume "r = UNKNOWN \<and> (\<forall>c \<in> set (predict_calls new). snd c = []) \<and>
         conn_attempts new = length rest"
      then show ?thesis using b c d e by simp
    next
      assume "\<exists>pre i. predict_calls new = pre @ [(rest ! i, r)] \<and> r \<noteq> [] \<and>
            (\<forall>c \<in> set pre. snd c = []) \<and> i < length rest \<and> conn_attempts new = i + 1"
      then obtain pre i where pi: "predict_calls new = pre @ [(rest ! i, r)]" "r \<noteq> []"
        "\<forall>c \<in> set pre. snd c = []" "i < length rest" "conn_attempts new = i + 1"
        by blast
      have "predict_calls (ev @ new) = pre @ [((p # rest) ! Suc i, r)]"
        using pi(1) b by simp
      moreover have "Suc i < length (p # rest)" using pi(4) by simp
      moreover have "conn_attempts (ev @ new) = Suc i + 1" using c pi(5) by simp
      ultimately show ?thesis using d e pi(2,3) by blast
    qed
    with a show ?thesis by blast
  next
    case (Some cn)
    define res where "res = predict nw log1 p hp"
    define log2 where "log2 = log1 @ [Predict p hp res]"
    show ?thesis
    proof (cases "res = []")
      case False
      with Cons.prems oc Some have r: "r = res" "log' = run_deferred (cn # ds) log2"
        by (auto simp add: res_def log2_def Let_def)
      let ?new = "ev @ [Predict p hp res] @ map Close (cn # ds)"
      have a: "log' = log @ ?new"
        using r(2) by (simp add: run_deferred_def log2_def ev)
      have b: "predict_calls ?new = [] @ [((p # rest) ! 0, r)]"
        using predict_calls_Close [of "cn # ds"]
        by (simp add: predict_calls_append ev r del: list.map)
      have c: "conn_attempts ?new = 0 + 1"
        using conn_attempts_Close [of "cn # ds"]
        by (simp add: conn_attempts_append ev del: list.map)
      have o: "conn_opened ?new = 1"
        using conn_opened_Close [of "cn # ds"]
        by (simp add: conn_opened_append ev Some del: list.map)
      have d: "subseq (map fst (predict_calls ?new)) (p # rest)"
        unfolding b by simp
      have e: "r \<noteq> []" using False r by simp
      have f: "(0::nat) < length (p # rest)" by simp
      have g: "\<forall>c \<in> set ([] :: (predictor \<times> string) list). snd c = []" by simp
      have h: "length (predict_calls ?new) = conn_opened ?new"
        unfolding b o by simp
      have "?Q (p # rest) ?new"
        using b c d e f g h by blast
      with a show ?thesis by blast
    next
      case True
      with Cons.prems oc Some
      have "predict_loop nw ps hp rest (cn # ds) log2 = (r, log')"
        by (simp add: res_def log2_def Let_def)
      from Cons.IH [OF this] obtain new where new: "log' = log2 @ new" "?Q rest new"
        by blast
      let ?new = "ev @ [Predict p hp res] @ new"
      have a: "log' = log @ ?new" using new(1) by (simp add: log2_def ev)
      have b: "predict_calls ?new = (p, []) # predict_calls new"
        by (simp add: predict_calls_append ev True)
      have c: "conn_attempts ?new = Suc (conn_attempts new)"
        by (simp add: conn_attempts_append ev)
      have o: "conn_opened ?new = Suc (conn_opened new)"
        by (simp add: conn_opened_append ev Some)
      have d: "subseq (map fst (predict_calls ?new)) (p # rest)"
        unfolding b using new(2) by simp
      have e: "length (predict_calls ?new) = conn_opened ?new"
        unfolding b o using new(2) by simp
      from new(2) have "(r = UNKNOWN \<and> (\<forall>c \<in> set (predict_calls new). snd c = []) \<and>
           conn_attempts new = length rest)
        \<or> (\<exists>pre i. predict_calls new = pre @ [(rest ! i, r)] \<and> r \<noteq> [] \<and>
              (\<forall>c \<in> set pre. snd c = []) \<and> i < length rest \<and> conn_attempts new = i + 1)"
        by blast
      then have "?Q (p # rest) ?new"
      proof
        assume "r = UNKNOWN \<and> (\<forall>c \<in> set (predict_calls new). snd c = []) \<and>
           conn_attempts new = length rest"
        then show ?thesis using b c d e by simp
      next
        assume "\<exists>pre i. predict_calls new = pre @ [(rest ! i, r)] \<and> r \<noteq> [] \<and>
              (\<forall>c \<in> set pre. snd c = []) \<and> i < length rest \<and> conn_attempts new = i + 1"
        then obtain pre i where pi: "predict_calls new = pre @ [(rest ! i, r)]" "r \<noteq> []"
          "\<forall>c \<in> set pre. snd c = []" "i < length rest" "conn_attempts new = i + 1"
          by blast
        have "predict_calls ?new = ((p, []) # pre) @ [((p # rest) ! Suc i, r)]"
          using pi(1) b by simp
        moreover have "\<forall>c \<in> set ((p, []) # pre). snd c = []" using pi(3) by simp
        moreover have "Suc i < length (p # rest)" using pi(4) by simp
        moreover have "conn_attempts ?new = Suc i + 1" using c pi(5) by simp
        ultimately show ?thesis using d e pi(2) by blast
      qed
      with a show ?thesis by blast
    qed
  qed
qed

lemma PredictUsingPredictor_result:
  assumes "PredictUsingPredictor nw ps hp log = (r, log')"
  shows "r = UNKNOWN \<or> (r \<noteq> [] \<and> (\<exists>p \<in> set (predictors ps). \<exists>new. log' = log @ new \<and> (p, r) \<in> set (predict_calls new)))"
proof -
  from predict_loop_chain [OF assms [unfolded PredictUsingPredictor_def]]
  obtain new where new: "log' = log @ new"
     "(r = UNKNOWN \<and> (\<forall>c \<in> set (predict_calls new). snd c = []) \<and>
         conn_attempts new = length (predictors ps))
      \<or> (\<exists>pre i. predict_calls new = pre @ [(predictors ps ! i, r)] \<and> r \<noteq> [] \<and>
            (\<forall>c \<in> set pre. snd c = []) \<and> i < length (predictors ps) \<and> conn_attempts new = i + 1)"
    by blast
  from new(2) show ?thesis
  proof
    assume "r = UNKNOWN \<and> (\<forall>c \<in> set (predict_calls new). snd c = []) \<and>
         conn_attempts new = length (predictors ps)"
    then show ?thesis by simp
  next
    assume "\<exists>pre i. predict_calls new = pre @ [(predictors ps ! i, r)] \<and> r \<noteq> [] \<and>
            (\<forall>c \<in> set pre. snd c = []) \<and> i < length (predictors ps) \<and> conn_attempts new = i + 1"
    then obtain pre i where pi: "predict_calls new = pre @ [(predictors ps ! i, r)]" "r \<noteq> []"
       "i < length (predictors ps)" by blast
    have "predictors ps ! i \<in> set (predictors ps)" using pi(3) by simp
    moreover have "(predictors ps ! i, r) \<in> set (predict_calls new)" using pi(1) by simp
    ultimately show ?thesis using pi(2) new(1) by blast
  qed
qed

subsection \<open>The identification policy\<close>

text \<open>
  Claim C1. For every port, when the predictor-enabled flag is false,
  \<^verbatim>\<open>DescribePort\<close> returns exactly the result of the known-port table lookup (the
  unknown sentinel for a port the table does not list) and performs no network I/O:
  the log of network events is returned as it was received.
\<close>

theorem DescribePort_predictor_off:
  "\<not> usePredictor ps \<Longrightarrow> DescribePort nw ps port log = (predictPort port, log)"
  by (simp add: DescribePort_def)

theorem DescribePort_predictor_off_witness:
  "\<not> usePredictor (TogglePredictor scanner0 False) \<and>
   DescribePort nw_up (TogglePredictor scanner0 False) 3306 [] = (''MySQL'', [])"
  using DescribePort_predictor_off [of "TogglePredictor scanner0 False" nw_up 3306 "[]"]
  by (simp add: TogglePredictor_def predictPort_3306)

text \<open>
  Claim C2, as stated, says that port 80 always goes to the predictor chain and never
  yields the table entry. With the flag off the first test of \<^verbatim>\<open>DescribePort\<close> returns
  the table entry \<open>HTTP\<close> and nothing is sent, on a network where the chain would have
  answered \<open>nginx\<close>.
\<close>

theorem DescribePort_http_flag_off_counterexample:
  "DescribePort nw_up (TogglePredictor scanner0 False) 80 [] = (''HTTP'', []) \<and>
   fst (PredictUsingPredictor nw_up (TogglePredictor scanner0 False)
          (hostPort (TogglePredictor scanner0 False) 80) []) = ''nginx''"
  by (simp add: DescribePort_def TogglePredictor_def predictPort_80 PredictUsingPredictor_def
      scanner0_def NewPortScanner_def openConn_def nw_up_def run_deferred_def Let_def)

text \<open>
  Claim C2, amended. \<^verbatim>\<open>IsHttp\<close> holds of the ports 80 and 8080 and of no other port.
  When the predictor-enabled flag is true, \<^verbatim>\<open>DescribePort\<close> of port 80 or 8080 is the
  predictor chain on \<^verbatim>\<open>host:port\<close>: the table is not consulted, and the result is the
  unknown sentinel or a non-empty answer that a registered predictor gave in this call
  (so it is \<open>HTTP\<close> or \<open>HTTP Alternate\<close> only if a predictor answers so). A port other
  than 80 and 8080 whose table entry is neither unknown nor \<open>MySQL\<close> gets its table
  entry, with no network I/O.
\<close>

theorem DescribePort_http_ports:
  "(IsHttp port \<longleftrightarrow> port = 80 \<or> port = 8080) \<and>
   (usePredictor ps \<and> (port = 80 \<or> port = 8080) \<longrightarrow>
      DescribePort nw ps port log = PredictUsingPredictor nw ps (hostPort ps port) log \<and>
      (fst (DescribePort nw ps port log) = UNKNOWN \<or>
       (fst (DescribePort nw ps port log) \<noteq> [] \<and>
        (\<exists>p \<in> set (predictors ps). \<exists>new. snd (DescribePort nw ps port log) = log @ new \<and>
           (p, fst (DescribePort nw ps port log)) \<in> set (predict_calls new))))) \<and>
   (usePredictor ps \<and> port \<noteq> 80 \<and> port \<noteq> 8080 \<and> predictPort port \<noteq> UNKNOWN \<and>
      predictPort port \<noteq> ''MySQL'' \<longrightarrow> DescribePort nw ps port log = (predictPort port, log))"
proof (intro conjI impI)
  show "IsHttp port \<longleftrightarrow> port = 80 \<or> port = 8080" by (simp add: IsHttp_def)
next
  assume a: "usePredictor ps \<and> (port = 80 \<or> port = 8080)"
  then show d: "DescribePort nw ps port log = PredictUsingPredictor nw ps (hostPort ps port) log"
    by (auto simp: DescribePort_def IsHttp_def)
  obtain r log' where rl: "PredictUsingPredictor nw ps (hostPort ps port) log = (r, log')"
    by (cases "PredictUsingPredictor nw ps (hostPort ps port) log")
  from PredictUsingPredictor_result [OF rl]
  show "fst (DescribePort nw ps port log) = UNKNOWN \<or>
       (fst (DescribePort nw ps port log) \<noteq> [] \<and>
        (\<exists>p \<in> set (predictors ps). \<exists>new. snd (DescribePort nw ps port log) = log @ new \<and>
           (p, fst (DescribePort nw ps port log)) \<in> set (predict_calls new)))"
    unfolding d rl by simp
next
  assume "usePredictor ps \<and> port \<noteq> 80 \<and> port \<noteq> 8080 \<and> predictPort port \<noteq> UNKNOWN \<and>
      predictPort port \<noteq> ''MySQL''"
  then show "DescribePort nw ps port log = (predictPort port, log)"
    by (simp add: DescribePort_def IsHttp_def Let_def)
qed

theorem DescribePort_http_ports_witness:
  "usePredictor scanner0 \<and> DescribePort nw_up scanner0 80 [] =
     (''nginx'', [Resolve ''db:80'' (Some ''db:80''), Dial ''db:80'' 1000 True,
        Predict ApachePredictor ''db:80'' [], Resolve ''db:80'' (Some ''db:80''),
        Dial ''db:80'' 1000 True, Predict NginxPredictor ''db:80'' ''nginx'', Close 4, Close 1]) \<and>
   predictPort 443 \<noteq> UNKNOWN \<and> predictPort 443 \<noteq> ''MySQL'' \<and>
   DescribePort nw_up scanner0 443 [] = (''HTTPS'', [])"
proof -
  have a: "usePredictor scanner0 \<and> ((80::int) = 80 \<or> (80::int) = 8080)"
    by (simp add: usePredictor_scanner0)
  have b: "usePredictor scanner0 \<and> (443::int) \<noteq> 80 \<and> (443::int) \<noteq> 8080 \<and>
     predictPort 443 \<noteq> UNKNOWN \<and> predictPort 443 \<noteq> ''MySQL''"
    by (simp add: usePredictor_scanner0 predictPort_443 UNKNOWN_def)
  from a DescribePort_http_ports [of 80 scanner0 nw_up "[]"]
  have "DescribePort nw_up scanner0 80 [] =
        PredictUsingPredictor nw_up scanner0 (hostPort scanner0 80) []"
    by blast
  moreover from b DescribePort_http_ports [of 443 scanner0 nw_up "[]"]
  have "DescribePort nw_up scanner0 443 [] = (predictPort 443, [])"
    by blast
  ultimately show ?thesis
    using b by (simp add: chain_nw_up hostPort_scanner0_80 predictPort_443)
qed

text \<open>
  The MySQL follow-up. It is reached exactly for port 3306 with the flag on; it makes
  one connection attempt; when the connection fails the guess is returned; when it is
  established the deadline of three seconds is set, one read of a buffer of 20 bytes is
  made, the connection is closed, and the guess is returned when the read fails. When
  the read succeeds, the text appended after \<open>version:\<close> is the whole buffer: the
  bytes that arrived followed by the zero bytes that the read left in place.
\<close>

lemma predictPort_MySQL_iff: "predictPort port = ''MySQL'' \<longleftrightarrow> port = 3306"
  by (simp add: predictPort_def KNOWN_PORTS_def UNKNOWN_def)

lemma DescribePort_MySQL_dispatch:
  assumes "usePredictor ps" and "\<not> IsHttp port" and "predictPort port = ''MySQL''"
  shows "DescribePort nw ps port log = getMySQLVersion nw ps port ''MySQL'' log"
  using assms by (simp add: DescribePort_def Let_def UNKNOWN_def)

lemma getMySQLVersion_connect_failure:
  "fst (openConn nw ps (hostPort ps port) log) = None \<Longrightarrow>
   getMySQLVersion nw ps port assumed log = (assumed, snd (openConn nw ps (hostPort ps port) log))"
  by (cases "openConn nw ps (hostPort ps port) log") (simp add: getMySQLVersion_def)

lemma getMySQLVersion_connected:
  assumes "openConn nw ps (hostPort ps port) log = (Some c, log1)"
    and "conn_read nw (log1 @ [SetDeadline c 3]) c 20 = (arrived, err)"
  shows "getMySQLVersion nw ps port assumed log =
    (if err then assumed
     else assumed @ '' version: '' @ take 20 arrived @ replicate (20 - length arrived) (CHR 0x00),
     log1 @ [SetDeadline c 3, Read c 20 (take 20 arrived) err, Close c])"
  using assms by (simp add: getMySQLVersion_def Let_def min_def)

text \<open>
  Claim C3 says that a successful read appends the raw bytes read. On \<open>nw_up\<close> the
  read of port 3306 succeeds with the five bytes \<open>5.7.1\<close>; \<^verbatim>\<open>DescribePort\<close> returns
  them followed by fifteen zero bytes, since \<^verbatim>\<open>getMySQLVersion\<close> drops the count that
  \<^verbatim>\<open>Read\<close> returns and converts the whole buffer.
\<close>

theorem DescribePort_MySQL_short_read:
  "DescribePort nw_up scanner0 3306 [] =
     (''MySQL version: 5.7.1'' @ replicate 15 (CHR 0x00),
      [Resolve ''db:3306'' (Some ''db:3306''), Dial ''db:3306'' 1000 True,
       SetDeadline 1 3, Read 1 20 ''5.7.1'' False, Close 1]) \<and>
   fst (DescribePort nw_up scanner0 3306 []) \<noteq> ''MySQL version: 5.7.1''"
  by (simp add: DescribePort_def usePredictor_scanner0 IsHttp_def predictPort_3306 UNKNOWN_def
      getMySQLVersion_def hostPort_scanner0_3306 openConn_def nw_up_def Let_def
      timeout_scanner0 numeral_eq_Suc)

text \<open>
  Claim C6. When the predictor-enabled flag is true and the table has no entry for a
  port that is not an HTTP port, \<^verbatim>\<open>DescribePort\<close> is the predictor chain on
  \<^verbatim>\<open>host:port\<close>. The chain only adds to the log; what it adds shows that
  \<^item> the predictors called are, in the order of the calls, a subsequence of the registry
    (registration order);
  \<^item> there is one call of \<^verbatim>\<open>Predict\<close> for each connection established, so a predictor
    whose connection attempt fails is not called, and the chain goes on to the next;
  \<^item> either every predictor had its connection attempt, every answer was empty and the
    result is the unknown sentinel, or the last call is that of the predictor at some
    index \<open>i\<close> of the registry, made at connection attempt \<open>i + 1\<close>, its answer is not
    empty and is the result, and every earlier answer was empty (the first non-empty
    answer wins, and no later predictor is tried).
\<close>

theorem DescribePort_unknown_guess_chain:
  assumes "usePredictor ps" and "\<not> IsHttp port" and "predictPort port = UNKNOWN"
  shows "DescribePort nw ps port log = PredictUsingPredictor nw ps (hostPort ps port) log \<and>
    (\<exists>new. snd (DescribePort nw ps port log) = log @ new \<and>
       subseq (map fst (predict_calls new)) (predictors ps) \<and>
       length (predict_calls new) = conn_opened new \<and>
       ((fst (DescribePort nw ps port log) = UNKNOWN \<and>
           (\<forall>c \<in> set (predict_calls new). snd c = []) \<and>
           conn_attempts new = length (predictors ps))
        \<or> (\<exists>pre i. predict_calls new =
                pre @ [(predictors ps ! i, fst (DescribePort nw ps port log))] \<and>
              fst (DescribePort nw ps port log) \<noteq> [] \<and>
              (\<forall>c \<in> set pre. snd c = []) \<and> i < length (predictors ps) \<and>
              conn_attempts new = i + 1)))"
proof -
  have "UNKNOWN \<noteq> ''MySQL''" by (simp add: UNKNOWN_def)
  with assms
  have d: "DescribePort nw ps port log = PredictUsingPredictor nw ps (hostPort ps port) log"
    by (simp add: DescribePort_def Let_def split: prod.splits)
  obtain r log' where rl: "predict_loop nw ps (hostPort ps port) (predictors ps) [] log = (r, log')"
    by (cases "predict_loop nw ps (hostPort ps port) (predictors ps) [] log")
  from predict_loop_chain [OF rl] show ?thesis
    unfolding d by (simp add: PredictUsingPredictor_def rl)
qed

theorem DescribePort_unknown_guess_chain_witness:
  "usePredictor scanner0 \<and> \<not> IsHttp 81 \<and> predictPort 81 = UNKNOWN \<and>
   DescribePort nw_up scanner0 81 [] =
     (''nginx'', [Resolve ''db:81'' (Some ''db:81''), Dial ''db:81'' 1000 True,
        Predict ApachePredictor ''db:81'' [], Resolve ''db:81'' (Some ''db:81''),
        Dial ''db:81'' 1000 True, Predict NginxPredictor ''db:81'' ''nginx'', Close 4, Close 1])"
proof -
  have a: "usePredictor scanner0" by (rule usePredictor_scanner0)
  have b: "\<not> IsHttp 81" by (simp add: IsHttp_def)
  have c: "predictPort 81 = UNKNOWN" by (rule predictPort_81)
  from DescribePort_unknown_guess_chain [OF a b c, of nw_up "[]"]
  have "DescribePort nw_up scanner0 81 [] =
      PredictUsingPredictor nw_up scanner0 (hostPort scanner0 81) []"
    by blast
  then show ?thesis
    using a b c by (simp add: chain_nw_up hostPort_scanner0_81)
qed

subsection \<open>The known-port table\<close>

text \<open>
  Claim C7. \<^verbatim>\<open>predictPort\<close> is a function of the port alone (it takes no log and
  returns none). It returns the label below for each of the forty ports listed, and the
  unknown sentinel for every other port.
\<close>

theorem predictPort_table:
  "predictPort 21 = ''FTP'' \<and> predictPort 22 = ''SSH'' \<and> predictPort 23 = ''Telnet'' \<and>
   predictPort 25 = ''SMTP'' \<and> predictPort 53 = ''DNS'' \<and>
   predictPort 66 = ''Oracle SQL*NET?'' \<and> predictPort 69 = ''TFTP'' \<and>
   predictPort 80 = ''HTTP'' \<and> predictPort 88 = ''Kerberos'' \<and> predictPort 109 = ''POP2'' \<and>
   predictPort 110 = ''POP3'' \<and> predictPort 118 = ''SQL Service?'' \<and>
   predictPort 123 = ''NTP'' \<and> predictPort 137 = ''NetBIOS'' \<and> predictPort 139 = ''NetBIOS'' \<and>
   predictPort 143 = ''IMAP'' \<and> predictPort 150 = ''SQL-Net?'' \<and> predictPort 194 = ''IRC'' \<and>
   predictPort 443 = ''HTTPS'' \<and> predictPort 445 = ''Samba'' \<and>
   predictPort 465 = ''SMTP over SSL'' \<and> predictPort 554 = ''RTSP'' \<and>
   predictPort 5800 = ''VNC Remote Desktop'' \<and> predictPort 631 = ''CUPS'' \<and>
   predictPort 993 = ''IMAP over SSL'' \<and> predictPort 995 = ''POP3 over SSL'' \<and>
   predictPort 1433 = ''Microsoft SQL Server'' \<and> predictPort 1434 = ''Microsoft SQL Monitor'' \<and>
   predictPort 3306 = ''MySQL'' \<and> predictPort 3389 = ''Remote Desktop Protocol (RDP)'' \<and>
   predictPort 3396 = ''Novell NDPS Printer Agent'' \<and> predictPort 3535 = ''SMTP (Alternate)'' \<and>
   predictPort 5432 = ''PostgreSQL'' \<and> predictPort 6379 = ''Redis'' \<and>
   predictPort 8080 = ''HTTP Alternate'' \<and> predictPort 9160 = ''Cassandra'' \<and>
   predictPort 9200 = ''Elasticsearch'' \<and> predictPort 11211 = ''Memcached'' \<and>
   predictPort 27017 = ''MongoDB'' \<and> predictPort 28017 = ''MongoDB Web Admin'' \<and>
   (port \<notin> {21, 22, 23, 25, 53, 66, 69, 80, 88, 109, 110, 118, 123, 137, 139, 143, 150, 194,
      443, 445, 465, 554, 5800, 631, 993, 995, 1433, 1434, 3306, 3389, 3396, 3535, 5432, 6379,
      8080, 9160, 9200, 11211, 27017, 28017} \<longrightarrow> predictPort port = ''<unknown>'')"
  by (simp add: predictPort_def KNOWN_PORTS_def UNKNOWN_def)

theorem predictPort_table_witness:
  "predictPort 3306 = ''MySQL'' \<and> predictPort 1 = ''<unknown>'' \<and>
   predictPort 65535 = ''<unknown>'' \<and> predictPort (- 1) = ''<unknown>''"
  using predictPort_table [of 1] predictPort_table [of 65535] predictPort_table [of "- 1"]
  by simp

subsection \<open>The registry and the configuration\<close>

text \<open>
  Claim C8. Registering a predictor that is in the registry leaves the scanner as it
  is; registering one that is not puts it at the end of the registry and changes
  nothing else; registering twice is registering once; and a registry without
  duplicates stays without duplicates and holds the registered predictor exactly once.
\<close>

theorem RegisterPredictor_idempotent_append:
  "(q \<in> set (predictors ps) \<longrightarrow> RegisterPredictor ps q = ps) \<and>
   (q \<notin> set (predictors ps) \<longrightarrow>
      RegisterPredictor ps q = ps\<lparr>predictors := predictors ps @ [q]\<rparr>) \<and>
   RegisterPredictor (RegisterPredictor ps q) q = RegisterPredictor ps q \<and>
   (distinct (predictors ps) \<longrightarrow>
      distinct (predictors (RegisterPredictor ps q)) \<and>
      count_list (predictors (RegisterPredictor ps q)) q = 1)"
proof -
  have one: "distinct qs \<Longrightarrow> q \<in> set qs \<Longrightarrow> count_list qs q = 1" for qs :: "predictor list"
    by (induction qs) auto
  show ?thesis
    by (auto simp: RegisterPredictor_def registered_iff one)
qed

theorem RegisterPredictor_idempotent_append_witness:
  "ApachePredictor \<in> set (predictors scanner0) \<and>
   RegisterPredictor scanner0 ApachePredictor = scanner0 \<and>
   Registered 7 \<notin> set (predictors scanner0) \<and>
   predictors (RegisterPredictor scanner0 (Registered 7)) =
     [ApachePredictor, NginxPredictor, Registered 7] \<and>
   distinct (predictors scanner0) \<and>
   count_list (predictors (RegisterPredictor scanner0 (Registered 7))) (Registered 7) = 1 \<and>
   count_list (predictors (RegisterPredictor scanner0 ApachePredictor)) ApachePredictor = 1"
  using RegisterPredictor_idempotent_append [of ApachePredictor scanner0]
    RegisterPredictor_idempotent_append [of "Registered 7" scanner0]
  by (simp add: scanner0_def NewPortScanner_def)

text \<open>
  Claim C9, as stated, says that the thread count is at least 1 after construction and
  after every operation. Neither the constructor nor \<^verbatim>\<open>SetThreads\<close> looks at the
  number it stores.
\<close>

theorem SetThreads_zero_counterexample:
  "threads (SetThreads (NewPortScanner ''db'' 1000 4) 0) = 0 \<and>
   \<not> 1 \<le> threads (SetThreads (NewPortScanner ''db'' 1000 4) 0) \<and>
   \<not> 1 \<le> threads (NewPortScanner ''db'' 1000 (- 1))"
  by (simp add: SetThreads_def NewPortScanner_def)

text \<open>
  Claim C9, amended. The thread count is the number the caller gave last, to the
  constructor or to \<^verbatim>\<open>SetThreads\<close>: it is at least 1 exactly when that number is.
  \<^verbatim>\<open>TogglePredictor\<close>, \<^verbatim>\<open>SetTimeout\<close> and \<^verbatim>\<open>RegisterPredictor\<close> leave it as it is
  (the other methods have value receivers and cannot change the scanner).
\<close>

theorem threads_set_by_caller:
  "threads (NewPortScanner h t n) = n \<and>
   threads (SetThreads ps n) = n \<and>
   (1 \<le> threads (NewPortScanner h t n) \<longleftrightarrow> 1 \<le> n) \<and>
   (1 \<le> threads (SetThreads ps n) \<longleftrightarrow> 1 \<le> n) \<and>
   threads (TogglePredictor ps b) = threads ps \<and>
   threads (SetTimeout ps t) = threads ps \<and>
   threads (RegisterPredictor ps q) = threads ps"
  by (simp add: NewPortScanner_def SetThreads_def TogglePredictor_def SetTimeout_def
      RegisterPredictor_def)

subsection \<open>The sweep: channel, wait group and mutex\<close>

lemma count_pc_update:
  "i < length ws \<Longrightarrow>
   count_pc P (ws[i := w]) + (if P (snd (ws ! i)) then 1 else 0) =
   count_pc P ws + (if P (snd w) then 1 else 0)"
  unfolding count_pc_def
proof (induction ws arbitrary: i)
  case Nil
  then show ?case by simp
next
  case (Cons a ws)
  then show ?case by (cases i) auto
qed

lemma count_pc_snoc: "count_pc P (ws @ [w]) = count_pc P ws + (if P (snd w) then 1 else 0)"
  by (simp add: count_pc_def)

lemma count_pc_Nil: "count_pc P [] = 0"
  by (simp add: count_pc_def)

lemma count_pc_mono:
  "(\<And>pc. P pc \<Longrightarrow> Q pc) \<Longrightarrow> count_pc P ws \<le> count_pc Q ws"
  unfolding count_pc_def by (induction ws) auto

lemma count_pc_pos: "i < length ws \<Longrightarrow> P (snd (ws ! i)) \<Longrightarrow> 0 < count_pc P ws"
  unfolding count_pc_def
  by (metis (mono_tags, lifting) filter_empty_conv length_greater_0_conv nth_mem)

lemma count_pc_zero: "count_pc P ws = 0 \<Longrightarrow> i < length ws \<Longrightarrow> \<not> P (snd (ws ! i))"
  using count_pc_pos [of i ws P] by auto

lemma count_pc_zero_all: "count_pc P ws = 0 \<Longrightarrow> w \<in> set ws \<Longrightarrow> \<not> P (snd w)"
  by (auto simp: count_pc_def filter_empty_conv)

lemma sem_inv_init: "sem_inv ps (init log)"
  by (simp add: sem_inv_def init_def count_pc_Nil)

lemma sem_inv_main:
  assumes "sem_inv ps s" and "main_step ps start endp s = Some s'"
  shows "sem_inv ps s'"
  using assms
  by (cases "mainpc s")
     (auto simp: sem_inv_def main_step_def count_pc_snoc holding_def live_def critical_def
        count_pc_Nil split: if_splits)

lemma sem_inv_handoff:
  assumes "sem_inv ps s" and "handoff_step i s = Some s'"
  shows "sem_inv ps s'"
proof (cases "mainpc s")
  case (MSend port)
  with assms(2) have i: "i < length (workers s)" "snd (workers s ! i) = WRecv" "sem s = 0"
    and s': "s' = s\<lparr>mainpc := MAdd port, workers := (workers s)[i := (fst (workers s ! i), WDone)]\<rparr>"
    by (auto simp: handoff_step_def split: if_splits)
  from count_pc_update [OF i(1), of holding "(fst (workers s ! i), WDone)"]
       count_pc_update [OF i(1), of live "(fst (workers s ! i), WDone)"]
       count_pc_update [OF i(1), of critical "(fst (workers s ! i), WDone)"]
  show ?thesis using assms(1) i MSend
    by (auto simp: sem_inv_def s' holding_def live_def critical_def)
qed (use assms(2) in \<open>simp_all add: handoff_step_def\<close>)

lemma sem_inv_worker:
  assumes "sem_inv ps s" and "worker_step nw ps i s = Some s'" and "mainpc s \<noteq> MPanic"
  shows "sem_inv ps s'"
proof -
  from assms(2) have i: "i < length (workers s)"
    by (auto simp: worker_step_def split: if_splits)
  obtain port pc where w: "workers s ! i = (port, pc)"
    by (cases "workers s ! i")
  have ne: "workers s \<noteq> []" using i by auto
  have upd: "\<And>P w. count_pc P ((workers s)[i := w]) + (if P pc then 1 else 0) =
     count_pc P (workers s) + (if P (snd w) then 1 else 0)"
    using count_pc_update [OF i] w by simp
  show ?thesis
  proof (cases pc)
    case WProbe
    obtain opened log' where io: "IsOpen nw ps port (netlog s) = (opened, log')"
      by (cases "IsOpen nw ps port (netlog s)")
    with assms(2) i w WProbe
    have s': "s' = s\<lparr>workers := (workers s)[i := (port, if opened then WLock else WRecv)],
                      netlog := log'\<rparr>"
      by (simp add: worker_step_def)
    from upd [of holding "(port, if opened then WLock else WRecv)"]
         upd [of live "(port, if opened then WLock else WRecv)"]
         upd [of critical "(port, if opened then WLock else WRecv)"]
    show ?thesis using assms(1) ne WProbe
      by (auto simp: sem_inv_def s' holding_def live_def critical_def split: if_splits)
  next
    case WLock
    with assms(2) i w
    have s': "s' = s\<lparr>mu := True, workers := (workers s)[i := (port, WAppend)]\<rparr>" and mu: "\<not> mu s"
      by (auto simp: worker_step_def split: if_splits)
    from upd [of holding "(port, WAppend)"] upd [of live "(port, WAppend)"]
         upd [of critical "(port, WAppend)"]
    show ?thesis using assms(1) ne WLock mu
      by (auto simp: sem_inv_def s' holding_def live_def critical_def split: if_splits)
  next
    case WAppend
    with assms(2) i w
    have s': "s' = s\<lparr>openPorts := openPorts s @ [port],
                      workers := (workers s)[i := (port, WUnlock)]\<rparr>"
      by (auto simp: worker_step_def split: if_splits)
    from upd [of holding "(port, WUnlock)"] upd [of live "(port, WUnlock)"]
         upd [of critical "(port, WUnlock)"]
    show ?thesis using assms(1) ne WAppend
      by (auto simp: sem_inv_def s' holding_def live_def critical_def split: if_splits)
  next
    case WUnlock
    from upd [of critical "(port, WRecv)"] WUnlock assms(1)
    have mu: "mu s"
      by (auto simp: sem_inv_def critical_def split: if_splits)
    with assms(2) i w WUnlock
    have s': "s' = s\<lparr>mu := False, workers := (workers s)[i := (port, WRecv)]\<rparr>"
      by (auto simp: worker_step_def split: if_splits)
    from upd [of holding "(port, WRecv)"] upd [of live "(port, WRecv)"]
         upd [of critical "(port, WRecv)"]
    show ?thesis using assms(1) ne WUnlock mu
      by (auto simp: sem_inv_def s' holding_def live_def critical_def split: if_splits)
  next
    case WRecv
    with assms(2) i w
    have s': "s' = s\<lparr>sem := sem s - 1, workers := (workers s)[i := (port, WDone)]\<rparr>"
      and pos: "0 < sem s"
      by (auto simp: worker_step_def split: if_splits)
    from upd [of holding "(port, WDone)"] upd [of live "(port, WDone)"]
         upd [of critical "(port, WDone)"]
    show ?thesis using assms(1) ne WRecv pos
      by (auto simp: sem_inv_def s' holding_def live_def critical_def split: if_splits)
  next
    case WDone
    from upd [of live "(port, WExit)"] WDone assms(1)
    have pos: "0 < wg s"
      by (cases "mainpc s") (auto simp: sem_inv_def live_def split: if_splits)
    with assms(2) i w WDone
    have s': "s' = s\<lparr>wg := wg s - 1, workers := (workers s)[i := (port, WExit)]\<rparr>"
      by (auto simp: worker_step_def split: if_splits)
    from upd [of holding "(port, WExit)"] upd [of live "(port, WExit)"]
         upd [of critical "(port, WExit)"]
    show ?thesis using assms(1) ne WDone pos
      by (auto simp: sem_inv_def s' holding_def live_def critical_def split: if_splits)
  next
    case WExit
    with assms(2) i w show ?thesis by (simp add: worker_step_def)
  qed
qed

lemma sem_inv_step:
  assumes "sem_inv ps s" and "step nw ps start endp a s = Some s'"
  shows "sem_inv ps s'"
proof -
  from assms(2) have np: "mainpc s \<noteq> MPanic"
    by (auto simp: step_def split: if_splits)
  show ?thesis
  proof (cases a)
    case Main
    with assms np show ?thesis by (auto simp: step_def intro: sem_inv_main)
  next
    case (Handoff i)
    with assms np show ?thesis by (auto simp: step_def intro: sem_inv_handoff)
  next
    case (Worker i)
    with assms np show ?thesis by (auto simp: step_def intro: sem_inv_worker)
  qed
qed

lemma sem_inv_run:
  "sem_inv ps s \<Longrightarrow> run nw ps start endp sched s = Some s' \<Longrightarrow> sem_inv ps s'"
proof (induction sched arbitrary: s)
  case Nil
  then show ?case by simp
next
  case (Cons a sched)
  then show ?case
    by (auto split: option.splits dest: sem_inv_step)
qed

lemma GetOpenedPorts_sem_inv:
  "GetOpenedPorts nw ps start endp sched log = Some s \<Longrightarrow> sem_inv ps s"
  unfolding GetOpenedPorts_def using sem_inv_run [OF sem_inv_init] by blast

text \<open>
  What a step of a goroutine does in a state that satisfies \<open>sem_inv\<close>: the panics of
  \<^verbatim>\<open>mu.Unlock()\<close> and \<^verbatim>\<open>wg.Done()\<close> do not occur.
\<close>

lemma worker_step_shape:
  assumes "sem_inv ps s" and "worker_step nw ps i s = Some s'"
  shows "\<exists>port pc pc'. i < length (workers s) \<and> workers s ! i = (port, pc) \<and> wnext pc pc' \<and>
     s' = s\<lparr>workers := (workers s)[i := (port, pc')],
            openPorts := (if pc = WAppend then openPorts s @ [port] else openPorts s),
            netlog := (if pc = WProbe then snd (IsOpen nw ps port (netlog s)) else netlog s),
            mu := (if pc = WLock then True else if pc = WUnlock then False else mu s),
            sem := (if pc = WRecv then sem s - 1 else sem s),
            wg := (if pc = WDone then wg s - 1 else wg s)\<rparr> \<and>
     (pc = WProbe \<longrightarrow> pc' = (if fst (IsOpen nw ps port (netlog s)) then WLock else WRecv))"
proof -
  from assms(2) have i: "i < length (workers s)"
    by (auto simp: worker_step_def split: if_splits)
  obtain port pc where w: "workers s ! i = (port, pc)"
    by (cases "workers s ! i")
  have cr: "critical pc \<Longrightarrow> mu s"
    using count_pc_pos [OF i, of critical] w assms(1)
    by (auto simp: sem_inv_def split: if_splits)
  have lv: "live pc \<Longrightarrow> 0 < wg s"
    using count_pc_pos [OF i, of live] w assms(1)
    by (cases "mainpc s") (auto simp: sem_inv_def)
  show ?thesis
  proof (cases pc)
    case WProbe
    with assms(2) i w show ?thesis
      by (cases "IsOpen nw ps port (netlog s)") (auto simp: worker_step_def)
  next
    case WUnlock
    with cr have "mu s" by (simp add: critical_def)
    with assms(2) i w WUnlock show ?thesis
      by (auto simp: worker_step_def)
  next
    case WDone
    with lv have "0 < wg s" by (simp add: live_def)
    with assms(2) i w WDone show ?thesis
      by (auto simp: worker_step_def)
  qed (use assms(2) i w in \<open>auto simp: worker_step_def split: if_splits\<close>)
qed

lemma in_flight_le_sem:
  assumes "sem_inv ps s"
  shows "in_flight s \<le> sem s"
proof -
  have "in_flight s = count_pc (\<lambda>pc. pc = WProbe) (workers s)"
    by (simp add: in_flight_def count_pc_def)
  also have "\<dots> \<le> count_pc holding (workers s)"
    by (rule count_pc_mono) (simp add: holding_def)
  also have "\<dots> \<le> sem s"
    using assms by (simp add: sem_inv_def)
  finally show ?thesis .
qed

lemma full_handoff_blocked:
  assumes "sem_inv ps s" and "sem s = nat (threads ps)"
  shows "handoff_step i s = None"
proof (cases "mainpc s")
  case (MSend port)
  show ?thesis
  proof (cases "sem s = 0")
    case True
    with assms(1) MSend have "count_pc holding (workers s) = 0"
      by (simp add: sem_inv_def)
    then have "i < length (workers s) \<Longrightarrow> snd (workers s ! i) \<noteq> WRecv"
      using count_pc_zero [of holding "workers s" i] by (auto simp: holding_def)
    with MSend show ?thesis
      by (auto simp: handoff_step_def)
  next
    case False
    with MSend show ?thesis by (simp add: handoff_step_def)
  qed
qed (simp_all add: handoff_step_def)

lemma threads_scanner1: "threads scanner1 = 1"
  by (simp add: scanner1_def SetThreads_def)

lemma run_to_blocked_state:
  "GetOpenedPorts nw_up scanner1 1 2 [Main, Main, Main, Main, Main, Main, Main] [] =
     Some blocked_state"
  by (simp add: GetOpenedPorts_def init_def step_def main_step_def threads_scanner1
      incr_def MAX_INT_def blocked_state_def)

text \<open>
  Claim C5. In every state that an execution of \<^verbatim>\<open>GetOpenedPorts\<close> reaches, under
  every schedule and on every network, the number of probes in flight is at most the
  thread count (read as a capacity: with a negative count the call panics in
  \<^verbatim>\<open>make\<close> before any goroutine exists). More precisely it is at most the number of
  elements in the channel, which is at most the thread count. When the caller stands
  before the send for a further probe and the channel is full, the send is blocked,
  directly and as a hand-over to a waiting receiver; when the channel is not full, the
  send goes through and takes a slot.
\<close>

theorem GetOpenedPorts_in_flight_bound:
  assumes "GetOpenedPorts nw ps start endp sched log = Some s"
  shows "in_flight s \<le> nat (threads ps) \<and>
    (0 \<le> threads ps \<longrightarrow> int (in_flight s) \<le> threads ps) \<and>
    in_flight s \<le> sem s \<and> sem s \<le> nat (threads ps) \<and>
    (\<forall>port. mainpc s = MSend port \<longrightarrow>
       (if sem s = nat (threads ps)
        then step nw ps start endp Main s = None \<and>
             (\<forall>i. step nw ps start endp (Handoff i) s = None)
        else step nw ps start endp Main s = Some (s\<lparr>mainpc := MAdd port, sem := sem s + 1\<rparr>)))"
proof -
  have inv: "sem_inv ps s" using assms by (rule GetOpenedPorts_sem_inv)
  then have a: "in_flight s \<le> sem s" by (rule in_flight_le_sem)
  have b: "sem s \<le> nat (threads ps)" using inv by (simp add: sem_inv_def)
  have c: "step nw ps start endp Main s = None \<and>
             (\<forall>i. step nw ps start endp (Handoff i) s = None)"
    if "mainpc s = MSend port" "sem s = nat (threads ps)" for port
    using that full_handoff_blocked [OF inv that(2)]
    by (simp add: step_def main_step_def)
  have d: "step nw ps start endp Main s = Some (s\<lparr>mainpc := MAdd port, sem := sem s + 1\<rparr>)"
    if "mainpc s = MSend port" "sem s \<noteq> nat (threads ps)" for port
    using that b by (simp add: step_def main_step_def)
  from a b c d show ?thesis by auto
qed

theorem GetOpenedPorts_in_flight_bound_witness:
  "GetOpenedPorts nw_up scanner1 1 2 [Main, Main, Main, Main, Main, Main, Main] [] =
     Some blocked_state \<and>
   in_flight blocked_state = 1 \<and> threads scanner1 = 1 \<and>
   int (in_flight blocked_state) \<le> threads scanner1 \<and>
   mainpc blocked_state = MSend 2 \<and> sem blocked_state = nat (threads scanner1) \<and>
   step nw_up scanner1 1 2 Main blocked_state = None \<and>
   step nw_up scanner1 1 2 (Handoff 0) blocked_state = None \<and>
   GetOpenedPorts nw_up scanner1 1 2 [Main, Main] [] = Some ((init [])\<lparr>mainpc := MSend 1\<rparr>) \<and>
   step nw_up scanner1 1 2 Main ((init [])\<lparr>mainpc := MSend 1\<rparr>) =
     Some ((init [])\<lparr>mainpc := MAdd 1, sem := 1\<rparr>)"
proof -
  have m: "mainpc blocked_state = MSend 2" "sem blocked_state = nat (threads scanner1)"
    "in_flight blocked_state = 1"
    by (simp_all add: blocked_state_def threads_scanner1 in_flight_def)
  have r: "GetOpenedPorts nw_up scanner1 1 2 [Main, Main] [] =
      Some ((init [])\<lparr>mainpc := MSend 1\<rparr>)"
    by (simp add: GetOpenedPorts_def init_def step_def main_step_def threads_scanner1)
  have n: "mainpc ((init [])\<lparr>mainpc := MSend 1\<rparr>) = MSend 1"
    "sem ((init [])\<lparr>mainpc := MSend 1\<rparr>) \<noteq> nat (threads scanner1)"
    by (simp_all add: init_def threads_scanner1)
  from GetOpenedPorts_in_flight_bound [OF r] n
  have "step nw_up scanner1 1 2 Main ((init [])\<lparr>mainpc := MSend 1\<rparr>) =
      Some ((init [])\<lparr>mainpc := MAdd 1, sem := 1\<rparr>)"
    by (simp add: init_def)
  with GetOpenedPorts_in_flight_bound [OF run_to_blocked_state] m r
  show ?thesis
    using run_to_blocked_state threads_scanner1 by simp
qed

subsection \<open>The sweep: ports, results and the log\<close>

lemma map_fst_update:
  "i < length ws \<Longrightarrow> fst (ws ! i) = p \<Longrightarrow> map fst (ws[i := (p, pc)]) = map fst ws"
  by (simp add: map_update list_update_same_conv)

lemma incr_no_wrap:
  "no_wrap start endp \<Longrightarrow> start \<le> p \<Longrightarrow> p \<le> endp \<Longrightarrow> incr p = p + 1"
  by (auto simp: no_wrap_def incr_def)

lemma incr_le_MAX_INT: "p \<le> MAX_INT \<Longrightarrow> incr p \<le> MAX_INT"
  by (simp add: incr_def MAX_INT_def MIN_INT_def)

lemma post_wnext: "wnext pc pc' \<Longrightarrow> post pc \<Longrightarrow> post pc'"
  by (cases pc) (auto simp: post_def)

lemma found_wnext: "wnext pc pc' \<Longrightarrow> pc \<noteq> WProbe \<Longrightarrow> found pc' \<Longrightarrow> found pc"
  by (cases pc) (auto simp: found_def)

lemma IsOpen_log:
  "\<exists>rest. snd (IsOpen nw ps port log) =
     log @ Dial (hostPort ps port) (timeout ps) (fst (IsOpen nw ps port log)) # rest"
  by (simp add: IsOpen_def Let_def)

lemma ports_inv_init: "ports_inv start endp (init log)"
  by (simp add: ports_inv_def init_def)

lemma ports_inv_main:
  assumes "ports_inv start endp s" and "sem_inv ps s" and "no_wrap start endp"
    and "main_step ps start endp s = Some s'"
  shows "ports_inv start endp s'"
proof (cases "mainpc s")
  case MMake
  with assms show ?thesis
    by (auto simp: ports_inv_def main_step_def split: if_splits)
next
  case (MLoop p)
  with assms(1) have p: "map fst (workers s) = [start..p - 1]" "start \<le> p"
    "p \<le> endp + 1 \<or> p = start"
    by (simp_all add: ports_inv_def)
  show ?thesis
  proof (cases "p \<le> endp")
    case True
    with MLoop assms(4) have "s' = s\<lparr>mainpc := MSend p\<rparr>"
      by (simp add: main_step_def)
    with p True show ?thesis by (simp add: ports_inv_def)
  next
    case False
    with MLoop assms(4) have s': "s' = s\<lparr>mainpc := MWait\<rparr>"
      by (simp add: main_step_def)
    from p(3) have "[start..p - 1] = [start..endp]"
    proof
      assume "p \<le> endp + 1"
      with False have "p - 1 = endp" by simp
      then show ?thesis by simp
    next
      assume "p = start"
      with False show ?thesis by simp
    qed
    with p(1) show ?thesis by (simp add: ports_inv_def s')
  qed
next
  case (MSend p)
  with assms show ?thesis
    by (auto simp: ports_inv_def main_step_def split: if_splits)
next
  case (MAdd p)
  with assms show ?thesis
    by (auto simp: ports_inv_def main_step_def split: if_splits)
next
  case (MGo p)
  with assms(1) have "map fst (workers s) = [start..p - 1]" "start \<le> p" "p \<le> endp"
    by (simp_all add: ports_inv_def)
  moreover from MGo assms(4)
  have "s' = s\<lparr>mainpc := MIncr p, workers := workers s @ [(p, WProbe)]\<rparr>"
    by (simp add: main_step_def)
  ultimately show ?thesis
    by (simp add: ports_inv_def upto_rec2 [of start p])
next
  case (MIncr p)
  with assms(1) have p: "map fst (workers s) = [start..p]" "start \<le> p" "p \<le> endp"
    by (simp_all add: ports_inv_def)
  from MIncr assms(4) have "s' = s\<lparr>mainpc := MLoop (incr p)\<rparr>"
    by (simp add: main_step_def)
  with p incr_no_wrap [OF assms(3) p(2,3)] show ?thesis
    by (simp add: ports_inv_def)
next
  case MWait
  with assms(4) have s': "s' = s\<lparr>mainpc := MReturn\<rparr>" and "wg s = 0"
    by (auto simp: main_step_def split: if_splits)
  with assms(2) MWait have "count_pc live (workers s) = 0"
    by (simp add: sem_inv_def)
  with assms(1) MWait show ?thesis
    by (simp add: ports_inv_def s')
next
  case MReturn
  with assms(4) have "s' = s\<lparr>mainpc := MReturned (openPorts s)\<rparr>"
    by (simp add: main_step_def)
  with assms(1) MReturn show ?thesis
    by (simp add: ports_inv_def)
next
  case (MReturned r)
  with assms(4) show ?thesis by (simp add: main_step_def)
next
  case MPanic
  with assms(4) show ?thesis by (simp add: main_step_def)
qed

lemma ports_inv_handoff:
  assumes "ports_inv start endp s" and "handoff_step i s = Some s'"
  shows "ports_inv start endp s'"
proof (cases "mainpc s")
  case (MSend port)
  with assms(2) have i: "i < length (workers s)"
    and s': "s' = s\<lparr>mainpc := MAdd port, workers := (workers s)[i := (fst (workers s ! i), WDone)]\<rparr>"
    by (auto simp: handoff_step_def split: if_splits)
  from assms(1) MSend show ?thesis
    by (simp add: ports_inv_def s' map_fst_update [OF i])
qed (use assms(2) in \<open>simp_all add: handoff_step_def\<close>)

lemma ports_inv_worker:
  assumes "ports_inv start endp s" and "sem_inv ps s" and "worker_step nw ps i s = Some s'"
  shows "ports_inv start endp s'"
proof -
  from worker_step_shape [OF assms(2,3)] obtain port pc pc' where
    i: "i < length (workers s)" and w: "workers s ! i = (port, pc)" and n: "wnext pc pc'"
    and s': "s' = s\<lparr>workers := (workers s)[i := (port, pc')],
            openPorts := (if pc = WAppend then openPorts s @ [port] else openPorts s),
            netlog := (if pc = WProbe then snd (IsOpen nw ps port (netlog s)) else netlog s),
            mu := (if pc = WLock then True else if pc = WUnlock then False else mu s),
            sem := (if pc = WRecv then sem s - 1 else sem s),
            wg := (if pc = WDone then wg s - 1 else wg s)\<rparr>"
    by blast
  have m: "map fst ((workers s)[i := (port, pc')]) = map fst (workers s)"
    using map_fst_update [OF i, of port pc'] w by simp
  show ?thesis
  proof (cases "mainpc s")
    case MReturn
    with assms(1) have "count_pc live (workers s) = 0" by (simp add: ports_inv_def)
    from count_pc_zero [OF this i] w have "pc = WExit" by (simp add: live_def)
    with n show ?thesis by simp
  next
    case (MReturned r)
    with assms(1) have "count_pc live (workers s) = 0" by (simp add: ports_inv_def)
    from count_pc_zero [OF this i] w have "pc = WExit" by (simp add: live_def)
    with n show ?thesis by simp
  qed (use assms(1) m in \<open>simp_all add: ports_inv_def s'\<close>)
qed

lemma ports_inv_distinct:
  assumes "ports_inv start endp s" and "mainpc s \<noteq> MPanic"
  shows "distinct (map fst (workers s))"
  using assms by (cases "mainpc s") (auto simp: ports_inv_def)

lemma result_inv_init: "result_inv (init log)"
  by (simp add: result_inv_def init_def)

lemma result_inv_main:
  assumes "result_inv s" and "main_step ps start endp s = Some s'"
  shows "result_inv s'"
proof -
  have a: "\<And>x w. \<exists>j<length (workers s). fst (workers s ! j) = x \<and> post (snd (workers s ! j)) \<Longrightarrow>
     \<exists>j<Suc (length (workers s)). fst ((workers s @ [w]) ! j) = x \<and> post (snd ((workers s @ [w]) ! j))"
    by (metis less_Suc_eq nth_append)
  from assms show ?thesis
    by (cases "mainpc s") (auto simp: result_inv_def main_step_def a split: if_splits)
qed

lemma result_inv_handoff:
  assumes "result_inv s" and "handoff_step i s = Some s'"
  shows "result_inv s'"
proof (cases "mainpc s")
  case (MSend port)
  with assms(2) have i: "i < length (workers s)"
    and s': "s' = s\<lparr>mainpc := MAdd port, workers := (workers s)[i := (fst (workers s ! i), WDone)]\<rparr>"
    by (auto simp: handoff_step_def split: if_splits)
  have "\<exists>j < length (workers s). fst ((workers s)[i := (fst (workers s ! i), WDone)] ! j) = x \<and>
      post (snd ((workers s)[i := (fst (workers s ! i), WDone)] ! j))"
    if "x \<in> set (openPorts s)" for x
  proof -
    from assms(1) that obtain j where j: "j < length (workers s)" "fst (workers s ! j) = x"
      "post (snd (workers s ! j))"
      by (auto simp: result_inv_def)
    then show ?thesis
      by (cases "j = i") (auto simp: post_def intro!: exI [of _ j])
  qed
  with assms(1) show ?thesis
    by (simp add: result_inv_def s')
qed (use assms(2) in \<open>simp_all add: handoff_step_def\<close>)

lemma result_inv_worker:
  assumes "result_inv s" and "sem_inv ps s" and "distinct (map fst (workers s))"
    and "worker_step nw ps i s = Some s'"
  shows "result_inv s'"
proof -
  from worker_step_shape [OF assms(2,4)] obtain port pc pc' where
    i: "i < length (workers s)" and w: "workers s ! i = (port, pc)" and n: "wnext pc pc'"
    and s': "s' = s\<lparr>workers := (workers s)[i := (port, pc')],
            openPorts := (if pc = WAppend then openPorts s @ [port] else openPorts s),
            netlog := (if pc = WProbe then snd (IsOpen nw ps port (netlog s)) else netlog s),
            mu := (if pc = WLock then True else if pc = WUnlock then False else mu s),
            sem := (if pc = WRecv then sem s - 1 else sem s),
            wg := (if pc = WDone then wg s - 1 else wg s)\<rparr>"
    by blast
  let ?ws' = "(workers s)[i := (port, pc')]"
  have old: "\<exists>j < length (workers s). fst (?ws' ! j) = x \<and> post (snd (?ws' ! j))"
    if "x \<in> set (openPorts s)" for x
  proof -
    from assms(1) that obtain j where j: "j < length (workers s)" "fst (workers s ! j) = x"
      "post (snd (workers s ! j))"
      by (auto simp: result_inv_def)
    show ?thesis
    proof (cases "j = i")
      case True
      with j w n show ?thesis
        by (intro exI [of _ j]) (auto simp: post_wnext)
    next
      case False
      with j show ?thesis
        by (intro exI [of _ j]) simp
    qed
  qed
  show ?thesis
  proof (cases "pc = WAppend")
    case False
    with assms(1) old show ?thesis
      by (simp add: result_inv_def s')
  next
    case True
    have fresh: "port \<notin> set (openPorts s)"
    proof
      assume "port \<in> set (openPorts s)"
      with assms(1) obtain j where j: "j < length (workers s)" "fst (workers s ! j) = port"
        "post (snd (workers s ! j))"
        by (auto simp: result_inv_def)
      from j(3) w True have "j \<noteq> i" by (auto simp: post_def)
      moreover have "map fst (workers s) ! j = map fst (workers s) ! i"
        using j i w by simp
      ultimately show False
        using assms(3) i j(1) by (simp add: nth_eq_iff_index_eq del: nth_map)
    qed
    have new: "\<exists>j < length (workers s). fst (?ws' ! j) = port \<and> post (snd (?ws' ! j))"
      using i n True by (intro exI [of _ i]) (simp add: post_def)
    from assms(1) old new fresh True show ?thesis
      by (auto simp: result_inv_def s')
  qed
qed

lemma log_inv_init: "log_inv ps log (init log)"
  by (simp add: log_inv_def init_def)

lemma log_inv_main:
  assumes "log_inv ps log s" and "main_step ps start endp s = Some s'"
  shows "log_inv ps log s'"
proof (cases "mainpc s")
  case (MGo p)
  with assms(2) have s': "s' = s\<lparr>mainpc := MIncr p, workers := workers s @ [(p, WProbe)]\<rparr>"
    by (simp add: main_step_def)
  from assms(1) show ?thesis
    by (auto simp: log_inv_def s' nth_append less_Suc_eq found_def)
qed (use assms in \<open>auto simp: log_inv_def main_step_def split: if_splits\<close>)

lemma log_inv_handoff:
  assumes "log_inv ps log s" and "handoff_step i s = Some s'"
  shows "log_inv ps log s'"
proof (cases "mainpc s")
  case (MSend port)
  with assms(2) have i: "i < length (workers s)" "snd (workers s ! i) = WRecv"
    and s': "s' = s\<lparr>mainpc := MAdd port, workers := (workers s)[i := (fst (workers s ! i), WDone)]\<rparr>"
    by (auto simp: handoff_step_def split: if_splits)
  from assms(1) obtain new where new: "netlog s = log @ new"
    "\<forall>j < length (workers s). snd (workers s ! j) \<noteq> WProbe \<longrightarrow>
       (\<exists>ok. Dial (hostPort ps (fst (workers s ! j))) (timeout ps) ok \<in> set new)"
    "\<forall>j < length (workers s). found (snd (workers s ! j)) \<longrightarrow>
       Dial (hostPort ps (fst (workers s ! j))) (timeout ps) True \<in> set new"
    "\<forall>x \<in> set (openPorts s). Dial (hostPort ps x) (timeout ps) True \<in> set new"
    by (auto simp: log_inv_def)
  let ?ws' = "(workers s)[i := (fst (workers s ! i), WDone)]"
  have a: "\<exists>ok. Dial (hostPort ps (fst (?ws' ! j))) (timeout ps) ok \<in> set new"
    if "j < length (workers s)" "snd (?ws' ! j) \<noteq> WProbe" for j
    using that new(2) i by (cases "j = i") auto
  have b: "Dial (hostPort ps (fst (?ws' ! j))) (timeout ps) True \<in> set new"
    if "j < length (workers s)" "found (snd (?ws' ! j))" for j
    using that new(3) i by (cases "j = i") (auto simp: found_def)
  show ?thesis
    unfolding log_inv_def s' using new(1,4) a b by auto
qed (use assms(2) in \<open>simp_all add: handoff_step_def\<close>)

lemma log_inv_worker:
  assumes "log_inv ps log s" and "sem_inv ps s" and "worker_step nw ps i s = Some s'"
  shows "log_inv ps log s'"
proof -
  from worker_step_shape [OF assms(2,3)] obtain port pc pc' where
    i: "i < length (workers s)" and w: "workers s ! i = (port, pc)" and n: "wnext pc pc'"
    and s': "s' = s\<lparr>workers := (workers s)[i := (port, pc')],
            openPorts := (if pc = WAppend then openPorts s @ [port] else openPorts s),
            netlog := (if pc = WProbe then snd (IsOpen nw ps port (netlog s)) else netlog s),
            mu := (if pc = WLock then True else if pc = WUnlock then False else mu s),
            sem := (if pc = WRecv then sem s - 1 else sem s),
            wg := (if pc = WDone then wg s - 1 else wg s)\<rparr>"
    and pr: "pc = WProbe \<longrightarrow> pc' = (if fst (IsOpen nw ps port (netlog s)) then WLock else WRecv)"
    by blast
  from assms(1) obtain new where new: "netlog s = log @ new"
    "\<forall>j < length (workers s). snd (workers s ! j) \<noteq> WProbe \<longrightarrow>
       (\<exists>ok. Dial (hostPort ps (fst (workers s ! j))) (timeout ps) ok \<in> set new)"
    "\<forall>j < length (workers s). found (snd (workers s ! j)) \<longrightarrow>
       Dial (hostPort ps (fst (workers s ! j))) (timeout ps) True \<in> set new"
    "\<forall>x \<in> set (openPorts s). Dial (hostPort ps x) (timeout ps) True \<in> set new"
    by (auto simp: log_inv_def)
  let ?ws' = "(workers s)[i := (port, pc')]"
  show ?thesis
  proof (cases "pc = WProbe")
    case True
    obtain rest where rest: "snd (IsOpen nw ps port (netlog s)) =
        netlog s @ Dial (hostPort ps port) (timeout ps) (fst (IsOpen nw ps port (netlog s))) # rest"
      using IsOpen_log by blast
    let ?ev = "Dial (hostPort ps port) (timeout ps) (fst (IsOpen nw ps port (netlog s))) # rest"
    have l: "netlog s' = log @ (new @ ?ev)"
      using True rest new(1) by (simp add: s')
    have a: "\<exists>ok. Dial (hostPort ps (fst (?ws' ! j))) (timeout ps) ok \<in> set (new @ ?ev)"
      if "j < length (workers s)" "snd (?ws' ! j) \<noteq> WProbe" for j
    proof (cases "j = i")
      case True
      with i show ?thesis by auto
    next
      case False
      with that new(2) obtain ok where
        "Dial (hostPort ps (fst (workers s ! j))) (timeout ps) ok \<in> set new"
        by auto
      with False show ?thesis by auto
    qed
    have b: "Dial (hostPort ps (fst (?ws' ! j))) (timeout ps) True \<in> set (new @ ?ev)"
      if "j < length (workers s)" "found (snd (?ws' ! j))" for j
    proof (cases "j = i")
      case True
      with that i pr \<open>pc = WProbe\<close> have "fst (IsOpen nw ps port (netlog s))"
        by (auto simp: found_def split: if_splits)
      with True i show ?thesis by simp
    next
      case False
      with that new(3) show ?thesis by auto
    qed
    have c: "\<forall>x \<in> set (openPorts s'). Dial (hostPort ps x) (timeout ps) True \<in> set (new @ ?ev)"
      using new(4) True by (auto simp: s')
    have ws: "workers s' = ?ws'" by (simp add: s')
    show ?thesis
      unfolding log_inv_def using l a b c ws
      by (intro exI [of _ "new @ ?ev"]) simp
  next
    case False
    have l: "netlog s' = log @ new"
      using False new(1) by (simp add: s')
    have a: "\<exists>ok. Dial (hostPort ps (fst (?ws' ! j))) (timeout ps) ok \<in> set new"
      if "j < length (workers s)" "snd (?ws' ! j) \<noteq> WProbe" for j
    proof (cases "j = i")
      case True
      from new(2) i w False
      obtain ok where "Dial (hostPort ps port) (timeout ps) ok \<in> set new"
        by fastforce
      with True i show ?thesis by auto
    next
      case False
      with that new(2) show ?thesis by auto
    qed
    have b: "Dial (hostPort ps (fst (?ws' ! j))) (timeout ps) True \<in> set new"
      if "j < length (workers s)" "found (snd (?ws' ! j))" for j
    proof (cases "j = i")
      case True
      with that i have "found pc'" by simp
      from found_wnext [OF n False this] new(3) i w True show ?thesis by auto
    next
      case False
      with that new(3) show ?thesis by auto
    qed
    have c: "\<forall>x \<in> set (openPorts s'). Dial (hostPort ps x) (timeout ps) True \<in> set new"
    proof (cases "pc = WAppend")
      case True
      with new(3) i w have "Dial (hostPort ps port) (timeout ps) True \<in> set new"
        by (auto simp: found_def)
      with new(4) True show ?thesis by (auto simp: s')
    next
      case False
      with new(4) show ?thesis by (auto simp: s')
    qed
    have ws: "workers s' = ?ws'" by (simp add: s')
    show ?thesis
      unfolding log_inv_def using l a b c ws
      by (intro exI [of _ new]) simp
  qed
qed

lemma sweep_inv_init: "sweep_inv ps start endp log (init log)"
  by (simp add: sweep_inv_def sem_inv_init ports_inv_init result_inv_init log_inv_init)

lemma sweep_inv_step:
  assumes "sweep_inv ps start endp log s" and "no_wrap start endp"
    and "step nw ps start endp a s = Some s'"
  shows "sweep_inv ps start endp log s'"
proof -
  from assms(3) have np: "mainpc s \<noteq> MPanic"
    by (auto simp: step_def split: if_splits)
  from assms(1) have inv: "sem_inv ps s" "ports_inv start endp s" "result_inv s"
    "log_inv ps log s"
    by (simp_all add: sweep_inv_def)
  have sem: "sem_inv ps s'" using inv(1) assms(3) by (rule sem_inv_step)
  show ?thesis
  proof (cases a)
    case Main
    with assms(3) np have st: "main_step ps start endp s = Some s'"
      by (simp add: step_def)
    show ?thesis
      unfolding sweep_inv_def
      using sem ports_inv_main [OF inv(2) inv(1) assms(2) st] result_inv_main [OF inv(3) st]
        log_inv_main [OF inv(4) st]
      by simp
  next
    case (Handoff i)
    with assms(3) np have st: "handoff_step i s = Some s'"
      by (simp add: step_def)
    show ?thesis
      unfolding sweep_inv_def
      using sem ports_inv_handoff [OF inv(2) st] result_inv_handoff [OF inv(3) st]
        log_inv_handoff [OF inv(4) st]
      by simp
  next
    case (Worker i)
    with assms(3) np have st: "worker_step nw ps i s = Some s'"
      by (simp add: step_def)
    show ?thesis
      unfolding sweep_inv_def
      using sem ports_inv_worker [OF inv(2) inv(1) st]
        result_inv_worker [OF inv(3) inv(1) ports_inv_distinct [OF inv(2) np] st]
        log_inv_worker [OF inv(4) inv(1) st]
      by simp
  qed
qed

lemma sweep_inv_run:
  "sweep_inv ps start endp log s \<Longrightarrow> no_wrap start endp \<Longrightarrow>
   run nw ps start endp sched s = Some s' \<Longrightarrow> sweep_inv ps start endp log s'"
proof (induction sched arbitrary: s)
  case Nil
  then show ?case by simp
next
  case (Cons a sched)
  then show ?case
    by (auto split: option.splits dest: sweep_inv_step)
qed

lemma GetOpenedPorts_sweep_inv:
  assumes "GetOpenedPorts nw ps start endp sched log = Some s" and "no_wrap start endp"
  shows "sweep_inv ps start endp log s"
  using assms sweep_inv_run [OF sweep_inv_init] unfolding GetOpenedPorts_def by blast

lemma wrap_inv_step:
  assumes "wrap_inv s" and "start \<le> MAX_INT" and "MAX_INT \<le> endp"
    and "step nw ps start endp a s = Some s'"
  shows "wrap_inv s'"
proof (cases a)
  case Main
  with assms show ?thesis
    by (cases "mainpc s")
       (auto simp: step_def main_step_def wrap_inv_def incr_le_MAX_INT split: if_splits)
next
  case (Handoff i)
  with assms show ?thesis
    by (cases "mainpc s") (auto simp: step_def handoff_step_def wrap_inv_def split: if_splits)
next
  case (Worker i)
  with assms(4) have "mainpc s' = mainpc s \<or> mainpc s' = MPanic"
    by (auto simp: step_def worker_step_def split: if_splits prod.splits wpc.splits)
  with assms(1) show ?thesis
    by (auto simp: wrap_inv_def)
qed

lemma wrap_inv_run:
  "wrap_inv s \<Longrightarrow> start \<le> MAX_INT \<Longrightarrow> MAX_INT \<le> endp \<Longrightarrow>
   run nw ps start endp sched s = Some s' \<Longrightarrow> wrap_inv s'"
proof (induction sched arbitrary: s)
  case Nil
  then show ?case by simp
next
  case (Cons a sched)
  then show ?case
    by (auto split: option.splits dest: wrap_inv_step)
qed

lemma returned_no_wrap:
  assumes "GetOpenedPorts nw ps start endp sched log = Some s" and "mainpc s = MReturned r"
  shows "no_wrap start endp"
proof (rule ccontr)
  assume "\<not> no_wrap start endp"
  then have "start \<le> MAX_INT" "MAX_INT \<le> endp"
    by (simp_all add: no_wrap_def)
  moreover have "wrap_inv (init log)" by (simp add: wrap_inv_def init_def)
  ultimately have "wrap_inv s"
    using assms(1) wrap_inv_run unfolding GetOpenedPorts_def by blast
  with assms(2) show False by (simp add: wrap_inv_def)
qed

lemma hostPort_scanner1_1: "hostPort scanner1 1 = ''db:1''"
  by (simp add: hostPort_def scanner1_def scanner0_def SetThreads_def NewPortScanner_def
      show_int_def digits.simps digit_char_def)

lemma timeout_scanner1: "timeout scanner1 = 1000"
  by (simp add: scanner1_def scanner0_def SetThreads_def NewPortScanner_def)

lemma run_to_returned_state:
  "GetOpenedPorts nw_up scanner1 1 1 sweep_schedule [] = Some returned_state"
  by (simp add: GetOpenedPorts_def sweep_schedule_def init_def step_def main_step_def
      worker_step_def threads_scanner1 incr_def MAX_INT_def returned_state_def IsOpen_def
      hostPort_scanner1_1 timeout_scanner1 nw_up_def)

text \<open>
  Every step uses up one of the steps that are left, and a sweep that has not returned
  is not stuck.
\<close>

lemma wrank_update:
  "i < length ws \<Longrightarrow>
   sum_list (map (\<lambda>w. wrank (snd w)) (ws[i := x])) + wrank (snd (ws ! i)) =
   sum_list (map (\<lambda>w. wrank (snd w)) ws) + wrank (snd x)"
proof (induction ws arbitrary: i)
  case Nil
  then show ?case by simp
next
  case (Cons a ws)
  then show ?case by (cases i) auto
qed

lemma wrank_wnext: "wnext pc pc' \<Longrightarrow> wrank pc' < wrank pc"
  by (cases pc) auto

lemma steps_left_main:
  assumes "ports_inv start endp s" and "no_wrap start endp"
    and "main_step ps start endp s = Some s'"
  shows "steps_left start endp s' < steps_left start endp s"
proof (cases "mainpc s")
  case (MGo p)
  with assms(1) have "p \<le> endp" by (simp add: ports_inv_def)
  then have "nat (endp + 1 - p) = Suc (nat (endp - p))" by simp
  with MGo assms(3) show ?thesis
    by (auto simp: steps_left_def main_step_def)
next
  case (MIncr p)
  with assms(1) have p: "start \<le> p" "p \<le> endp" by (simp_all add: ports_inv_def)
  from incr_no_wrap [OF assms(2) p] MIncr assms(3) show ?thesis
    by (auto simp: steps_left_def main_step_def)
qed (use assms(3) in \<open>auto simp: steps_left_def main_step_def split: if_splits\<close>)

lemma steps_left_handoff:
  assumes "handoff_step i s = Some s'"
  shows "steps_left start endp s' < steps_left start endp s"
proof (cases "mainpc s")
  case (MSend port)
  with assms have i: "i < length (workers s)" "snd (workers s ! i) = WRecv"
    and s': "s' = s\<lparr>mainpc := MAdd port, workers := (workers s)[i := (fst (workers s ! i), WDone)]\<rparr>"
    by (auto simp: handoff_step_def split: if_splits)
  from wrank_update [OF i(1), of "(fst (workers s ! i), WDone)"] i(2) MSend show ?thesis
    by (simp add: steps_left_def s')
qed (use assms in \<open>simp_all add: handoff_step_def\<close>)

lemma steps_left_worker:
  assumes "sem_inv ps s" and "worker_step nw ps i s = Some s'"
  shows "steps_left start endp s' < steps_left start endp s"
proof -
  from worker_step_shape [OF assms] obtain port pc pc' where
    i: "i < length (workers s)" and w: "workers s ! i = (port, pc)" and n: "wnext pc pc'"
    and s': "s' = s\<lparr>workers := (workers s)[i := (port, pc')],
            openPorts := (if pc = WAppend then openPorts s @ [port] else openPorts s),
            netlog := (if pc = WProbe then snd (IsOpen nw ps port (netlog s)) else netlog s),
            mu := (if pc = WLock then True else if pc = WUnlock then False else mu s),
            sem := (if pc = WRecv then sem s - 1 else sem s),
            wg := (if pc = WDone then wg s - 1 else wg s)\<rparr>"
    by blast
  from wrank_update [OF i, of "(port, pc')"] w wrank_wnext [OF n] show ?thesis
    by (simp add: steps_left_def s')
qed

lemma steps_left_step:
  assumes "sweep_inv ps start endp log s" and "no_wrap start endp"
    and "step nw ps start endp a s = Some s'"
  shows "steps_left start endp s' < steps_left start endp s"
proof -
  from assms(1) have inv: "sem_inv ps s" "ports_inv start endp s"
    by (simp_all add: sweep_inv_def)
  from assms(3) have np: "mainpc s \<noteq> MPanic"
    by (auto simp: step_def split: if_splits)
  show ?thesis
  proof (cases a)
    case Main
    with assms(3) np show ?thesis
      by (auto simp: step_def intro: steps_left_main [OF inv(2) assms(2)])
  next
    case (Handoff i)
    with assms(3) np show ?thesis
      by (auto simp: step_def intro: steps_left_handoff)
  next
    case (Worker i)
    with assms(3) np show ?thesis
      by (auto simp: step_def intro: steps_left_worker [OF inv(1)])
  qed
qed

lemma steps_left_run:
  "sweep_inv ps start endp log s \<Longrightarrow> no_wrap start endp \<Longrightarrow>
   run nw ps start endp sched s = Some s' \<Longrightarrow>
   length sched + steps_left start endp s' \<le> steps_left start endp s"
proof (induction sched arbitrary: s)
  case Nil
  then show ?case by simp
next
  case (Cons a sched)
  from Cons.prems(3) obtain s1 where s1: "step nw ps start endp a s = Some s1"
    "run nw ps start endp sched s1 = Some s'"
    by (auto split: option.splits)
  from sweep_inv_step [OF Cons.prems(1,2) s1(1)]
  have "length sched + steps_left start endp s' \<le> steps_left start endp s1"
    using Cons.IH Cons.prems(2) s1(2) by blast
  with steps_left_step [OF Cons.prems(1,2) s1(1)] show ?case by simp
qed

lemma GetOpenedPorts_bounded:
  assumes "no_wrap start endp" and "GetOpenedPorts nw ps start endp sched log = Some s"
  shows "length sched \<le> 11 * nat (endp + 1 - start) + 4"
proof -
  from steps_left_run [OF sweep_inv_init assms(1)] assms(2)
  have "length sched + steps_left start endp s \<le> steps_left start endp (init log)"
    unfolding GetOpenedPorts_def by blast
  then show ?thesis
    by (simp add: steps_left_def init_def)
qed

lemma count_pc_ex: "0 < count_pc P ws \<Longrightarrow> \<exists>i < length ws. P (snd (ws ! i))"
  unfolding count_pc_def
  by (metis (mono_tags, lifting) filter_False in_set_conv_nth length_greater_0_conv list.size(3)
      not_less_zero)

lemma worker_enabled:
  assumes "sem_inv ps s" and "i < length (workers s)" and "live (snd (workers s ! i))"
  shows "\<exists>j s'. worker_step nw ps j s = Some s'"
proof -
  obtain port pc where w: "workers s ! i = (port, pc)"
    by (cases "workers s ! i")
  have direct: "\<exists>s'. worker_step nw ps j s = Some s'"
    if "j < length (workers s)" "snd (workers s ! j) \<in> {WProbe, WAppend, WUnlock, WDone}" for j
    using that
    by (cases "workers s ! j"; cases "IsOpen nw ps (fst (workers s ! j)) (netlog s)")
       (auto simp: worker_step_def)
  show ?thesis
  proof (cases pc)
    case WLock
    show ?thesis
    proof (cases "mu s")
      case True
      with assms(1) have "0 < count_pc critical (workers s)"
        by (simp add: sem_inv_def)
      from count_pc_ex [OF this] obtain j where "j < length (workers s)"
        "critical (snd (workers s ! j))"
        by blast
      then show ?thesis using direct [of j] by (auto simp: critical_def)
    next
      case False
      with assms(2) w WLock
      have "worker_step nw ps i s = Some (s\<lparr>mu := True, workers := (workers s)[i := (port, WAppend)]\<rparr>)"
        by (simp add: worker_step_def)
      then show ?thesis by blast
    qed
  next
    case WRecv
    with assms(2) w have "0 < count_pc holding (workers s)"
      using count_pc_pos [of i "workers s" holding] by (simp add: holding_def)
    with assms(1) have "0 < sem s" by (simp add: sem_inv_def)
    with assms(2) w WRecv
    have "worker_step nw ps i s =
        Some (s\<lparr>sem := sem s - 1, workers := (workers s)[i := (port, WDone)]\<rparr>)"
      by (simp add: worker_step_def)
    then show ?thesis by blast
  next
    case WExit
    with assms(3) w show ?thesis by (simp add: live_def)
  qed (use direct [of i] assms(2) w in auto)
qed

lemma sweep_progress:
  assumes "sem_inv ps s" and "1 \<le> threads ps" and "mainpc s \<noteq> MPanic"
    and "\<forall>r. mainpc s \<noteq> MReturned r"
  shows "\<exists>a s'. step nw ps start endp a s = Some s'"
proof -
  have worker: "\<exists>a s'. step nw ps start endp a s = Some s'"
    if "i < length (workers s)" "live (snd (workers s ! i))" for i
  proof -
    from worker_enabled [OF assms(1) that] obtain j s' where
      "worker_step nw ps j s = Some s'" by blast
    with assms(3) have "step nw ps start endp (Worker j) s = Some s'"
      by (simp add: step_def)
    then show ?thesis by blast
  qed
  have main: "\<exists>a s'. step nw ps start endp a s = Some s'"
    if "main_step ps start endp s \<noteq> None"
  proof -
    from that obtain s' where "main_step ps start endp s = Some s'" by auto
    with assms(3) have "step nw ps start endp Main s = Some s'"
      by (simp add: step_def)
    then show ?thesis by blast
  qed
  show ?thesis
  proof (cases "mainpc s")
    case (MSend p)
    show ?thesis
    proof (cases "sem s < nat (threads ps)")
      case True
      with MSend show ?thesis by (intro main) (simp add: main_step_def)
    next
      case False
      with assms(1,2) MSend have "0 < count_pc holding (workers s)"
        by (simp add: sem_inv_def)
      from count_pc_ex [OF this] obtain i where "i < length (workers s)"
        "holding (snd (workers s ! i))" by blast
      then show ?thesis
        by (intro worker [of i]) (auto simp: holding_def live_def)
    qed
  next
    case MWait
    show ?thesis
    proof (cases "wg s = 0")
      case True
      with MWait show ?thesis by (intro main) (simp add: main_step_def)
    next
      case False
      with assms(1) MWait have "0 < count_pc live (workers s)"
        by (simp add: sem_inv_def)
      from count_pc_ex [OF this] show ?thesis
        using worker by blast
    qed
  next
    case (MReturned r)
    with assms(4) show ?thesis by simp
  next
    case MPanic
    with assms(3) show ?thesis by simp
  qed (auto intro!: main simp: main_step_def)
qed

lemma no_panic_step:
  assumes "sem_inv ps s" and "0 \<le> threads ps" and "step nw ps start endp a s = Some s'"
  shows "mainpc s' \<noteq> MPanic"
proof (cases a)
  case Main
  with assms(2,3) show ?thesis
    by (cases "mainpc s") (auto simp: step_def main_step_def split: if_splits)
next
  case (Handoff i)
  with assms(3) show ?thesis
    by (cases "mainpc s") (auto simp: step_def handoff_step_def split: if_splits)
next
  case (Worker i)
  with assms(3) have np: "mainpc s \<noteq> MPanic" and st: "worker_step nw ps i s = Some s'"
    by (auto simp: step_def split: if_splits)
  from worker_step_shape [OF assms(1) st] np show ?thesis
    by auto
qed

lemma no_panic_run:
  "sem_inv ps s \<Longrightarrow> 0 \<le> threads ps \<Longrightarrow> mainpc s \<noteq> MPanic \<Longrightarrow>
   run nw ps start endp sched s = Some s' \<Longrightarrow> mainpc s' \<noteq> MPanic"
proof (induction sched arbitrary: s)
  case Nil
  then show ?case by simp
next
  case (Cons a sched)
  from Cons.prems(4) obtain s1 where s1: "step nw ps start endp a s = Some s1"
    "run nw ps start endp sched s1 = Some s'"
    by (auto split: option.splits)
  from Cons.IH [OF sem_inv_step [OF Cons.prems(1) s1(1)] Cons.prems(2)
      no_panic_step [OF Cons.prems(1,2) s1(1)] s1(2)]
  show ?case .
qed

lemma GetOpenedPorts_progress:
  assumes "1 \<le> threads ps" and "GetOpenedPorts nw ps start endp sched log = Some s"
  shows "(\<exists>r. mainpc s = MReturned r) \<or> (\<exists>a s'. step nw ps start endp a s = Some s')"
proof -
  have inv: "sem_inv ps s" using assms(2) by (rule GetOpenedPorts_sem_inv)
  have "mainpc (init log) \<noteq> MPanic" by (simp add: init_def)
  with no_panic_run [OF sem_inv_init _ _ assms(2) [unfolded GetOpenedPorts_def]] assms(1)
  have np: "mainpc s \<noteq> MPanic" by simp
  from sweep_progress [OF inv assms(1) np] show ?thesis by blast
qed

text \<open>
  Claim C4. When \<^verbatim>\<open>GetOpenedPorts\<close> has returned \<open>r\<close>, under whatever schedule and on
  whatever network: \<open>r\<close> holds only ports of the range from \<open>start\<close> to \<open>endp\<close> and
  holds none twice; one goroutine was created for each port of the range, and for no
  other port, and all of them have ended; and the log has, after the events it started
  with, a dial of \<^verbatim>\<open>host:port\<close> for every port of the range, and a successful one for
  every port of \<open>r\<close>. So the value is returned only after every port of the range has
  been probed. And the call does return when there is at least one thread and the bound
  is below \<open>MAX_INT\<close>: an execution has at most eleven steps for each port and four
  more, and in a state where the call has not returned there is a step to take.
\<close>

theorem GetOpenedPorts_returned:
  assumes "GetOpenedPorts nw ps start endp sched log = Some s"
  shows "(\<forall>r. mainpc s = MReturned r \<longrightarrow>
       set r \<subseteq> {start..endp} \<and> distinct r \<and>
       map fst (workers s) = [start..endp] \<and> (\<forall>w \<in> set (workers s). snd w = WExit) \<and>
       (\<exists>new. netlog s = log @ new \<and>
          (\<forall>p \<in> {start..endp}. \<exists>ok. Dial (hostPort ps p) (timeout ps) ok \<in> set new) \<and>
          (\<forall>p \<in> set r. Dial (hostPort ps p) (timeout ps) True \<in> set new))) \<and>
    (1 \<le> threads ps \<and> endp < MAX_INT \<longrightarrow>
       length sched \<le> 11 * nat (endp + 1 - start) + 4 \<and>
       ((\<exists>r. mainpc s = MReturned r) \<or> (\<exists>a s'. step nw ps start endp a s = Some s')))"
proof (intro conjI allI impI)
  fix r assume m: "mainpc s = MReturned r"
  have nw: "no_wrap start endp" using assms m by (rule returned_no_wrap)
  from GetOpenedPorts_sweep_inv [OF assms nw]
  have inv: "ports_inv start endp s" "result_inv s" "log_inv ps log s"
    by (simp_all add: sweep_inv_def)
  from inv(1) m have p: "map fst (workers s) = [start..endp]" "r = openPorts s"
    "count_pc live (workers s) = 0"
    by (simp_all add: ports_inv_def)
  show ex: "\<forall>w \<in> set (workers s). snd w = WExit"
    using count_pc_zero_all [OF p(3)] by (auto simp: live_def)
  show "set r \<subseteq> {start..endp}"
  proof
    fix x assume "x \<in> set r"
    with inv(2) p(2) obtain j where "j < length (workers s)" "fst (workers s ! j) = x"
      by (auto simp: result_inv_def)
    then have "x \<in> set (map fst (workers s))"
      by (metis length_map nth_map nth_mem)
    then show "x \<in> {start..endp}" by (simp add: p(1))
  qed
  show "distinct r" using inv(2) p(2) by (simp add: result_inv_def)
  show "map fst (workers s) = [start..endp]" by (rule p(1))
  from inv(3) obtain new where new: "netlog s = log @ new"
    "\<forall>j < length (workers s). snd (workers s ! j) \<noteq> WProbe \<longrightarrow>
       (\<exists>ok. Dial (hostPort ps (fst (workers s ! j))) (timeout ps) ok \<in> set new)"
    "\<forall>x \<in> set (openPorts s). Dial (hostPort ps x) (timeout ps) True \<in> set new"
    by (auto simp: log_inv_def)
  have probed: "\<exists>ok. Dial (hostPort ps q) (timeout ps) ok \<in> set new" if "q \<in> {start..endp}" for q
  proof -
    from that have "q \<in> set (map fst (workers s))" by (simp add: p(1))
    then obtain j where j: "j < length (workers s)" "fst (workers s ! j) = q"
      by (auto simp: in_set_conv_nth)
    then have "snd (workers s ! j) = WExit" using ex by simp
    with new(2) j show ?thesis by auto
  qed
  from new(1) probed new(3) p(2)
  show "\<exists>new. netlog s = log @ new \<and>
          (\<forall>p \<in> {start..endp}. \<exists>ok. Dial (hostPort ps p) (timeout ps) ok \<in> set new) \<and>
          (\<forall>p \<in> set r. Dial (hostPort ps p) (timeout ps) True \<in> set new)"
    by blast
next
  assume a: "1 \<le> threads ps \<and> endp < MAX_INT"
  then have "no_wrap start endp" by (simp add: no_wrap_def)
  from GetOpenedPorts_bounded [OF this assms]
  show "length sched \<le> 11 * nat (endp + 1 - start) + 4" .
  from a GetOpenedPorts_progress [OF _ assms]
  show "(\<exists>r. mainpc s = MReturned r) \<or> (\<exists>a s'. step nw ps start endp a s = Some s')"
    by blast
qed

theorem GetOpenedPorts_returned_witness:
  "GetOpenedPorts nw_up scanner1 1 1 sweep_schedule [] = Some returned_state \<and>
   mainpc returned_state = MReturned [1] \<and> set [1] \<subseteq> {1..1::int} \<and>
   workers returned_state = [(1, WExit)] \<and>
   netlog returned_state = [Dial ''db:1'' 1000 True, Close 0] \<and>
   1 \<le> threads scanner1 \<and> 1 < MAX_INT \<and> length sweep_schedule = 15 \<and>
   length sweep_schedule \<le> 11 * nat (1 + 1 - 1) + 4"
proof -
  have m: "mainpc returned_state = MReturned [1]"
    by (simp add: returned_state_def)
  have t: "1 \<le> threads scanner1 \<and> 1 < MAX_INT"
    by (simp add: threads_scanner1 MAX_INT_def)
  from GetOpenedPorts_returned [OF run_to_returned_state] m t
  have "set [1] \<subseteq> {1..1::int}" "length sweep_schedule \<le> 11 * nat (1 + 1 - 1) + 4"
    by blast+
  then show ?thesis
    using run_to_returned_state t by (simp add: returned_state_def sweep_schedule_def)
qed

subsection \<open>The sweep of an empty range\<close>

lemma empty_sweep_step:
  assumes "endp < start" and "0 \<le> threads ps" and "k \<le> 4"
  shows "step nw ps start endp a (empty_sweep start log k) = Some s' \<longleftrightarrow>
     a = Main \<and> k < 4 \<and> s' = empty_sweep start log (Suc k)"
proof -
  from assms(3) consider "k = 0" | "k = 1" | "k = 2" | "k = 3" | "k = 4" by linarith
  then show ?thesis
  proof cases
    case 1
    with assms show ?thesis
      by (cases a) (auto simp: step_def main_step_def handoff_step_def worker_step_def
          empty_sweep_def init_def)
  next
    case 2
    with assms show ?thesis
      by (cases a) (auto simp: step_def main_step_def handoff_step_def worker_step_def
          empty_sweep_def init_def)
  next
    case 3
    with assms show ?thesis
      by (cases a) (auto simp: step_def main_step_def handoff_step_def worker_step_def
          empty_sweep_def init_def numeral_2_eq_2 numeral_3_eq_3)
  next
    case 4
    with assms show ?thesis
      by (cases a) (auto simp: step_def main_step_def handoff_step_def worker_step_def
          empty_sweep_def init_def numeral_3_eq_3 eval_nat_numeral)
  next
    case 5
    with assms show ?thesis
      by (cases a) (auto simp: step_def main_step_def handoff_step_def worker_step_def
          empty_sweep_def init_def eval_nat_numeral)
  qed
qed

lemma empty_sweep_run:
  assumes "endp < start" and "0 \<le> threads ps"
  shows "k \<le> 4 \<Longrightarrow> run nw ps start endp sched (empty_sweep start log k) = Some s \<longleftrightarrow>
     (\<exists>n. k + n \<le> 4 \<and> sched = replicate n Main \<and> s = empty_sweep start log (k + n))"
proof (induction sched arbitrary: k)
  case Nil
  then show ?case by auto
next
  case (Cons a sched)
  show ?case
  proof
    assume r: "run nw ps start endp (a # sched) (empty_sweep start log k) = Some s"
    then obtain s' where s': "step nw ps start endp a (empty_sweep start log k) = Some s'"
      "run nw ps start endp sched s' = Some s"
      by (auto split: option.splits)
    from s'(1) empty_sweep_step [OF assms Cons.prems]
    have a: "a = Main" "k < 4" "s' = empty_sweep start log (Suc k)" by auto
    with s'(2) Cons.IH [of "Suc k"] obtain n where
      "Suc k + n \<le> 4" "sched = replicate n Main" "s = empty_sweep start log (Suc k + n)"
      by auto
    with a show "\<exists>n. k + n \<le> 4 \<and> a # sched = replicate n Main \<and> s = empty_sweep start log (k + n)"
      by (intro exI [of _ "Suc n"]) simp
  next
    assume "\<exists>n. k + n \<le> 4 \<and> a # sched = replicate n Main \<and> s = empty_sweep start log (k + n)"
    then obtain n where n: "k + n \<le> 4" "a # sched = replicate n Main"
      "s = empty_sweep start log (k + n)"
      by blast
    then obtain m where m: "n = Suc m" "a = Main" "sched = replicate m Main"
      by (cases n) auto
    have "step nw ps start endp Main (empty_sweep start log k) = Some (empty_sweep start log (Suc k))"
      using empty_sweep_step [OF assms Cons.prems, of nw Main log "empty_sweep start log (Suc k)"]
        n(1) m(1) by simp
    moreover have "run nw ps start endp sched (empty_sweep start log (Suc k)) = Some s"
      using Cons.IH [of "Suc k"] n m by auto
    ultimately show "run nw ps start endp (a # sched) (empty_sweep start log k) = Some s"
      using m(2) by simp
  qed
qed

text \<open>
  Claim C10, as stated, says that the call returns the empty set whenever the start is
  above the end. With a thread count of \<open>- 1\<close> the first statement of the call,
  \<^verbatim>\<open>make(chan struct{}, ps.threads)\<close>, panics: the one step there is leads to
  \<open>MPanic\<close>, and the four steps that return the empty slice for another thread count
  are no execution.
\<close>

theorem GetOpenedPorts_negative_threads_counterexample:
  "threads scanner_neg = - 1 \<and>
   GetOpenedPorts nw_up scanner_neg 5 1 [Main] [] =
     Some \<lparr>mainpc = MPanic, sem = 0, wg = 0, mu = False, openPorts = [], workers = [],
           netlog = []\<rparr> \<and>
   GetOpenedPorts nw_up scanner_neg 5 1 [Main, Main] [] = None \<and>
   GetOpenedPorts nw_up scanner_neg 5 1 [Main, Main, Main, Main] [] = None"
  by (simp add: GetOpenedPorts_def init_def step_def main_step_def scanner_neg_def
      SetThreads_def)

text \<open>
  Claim C10, amended. When the thread count is not negative and the start is above the
  end, the executions of \<^verbatim>\<open>GetOpenedPorts\<close> are the prefixes of a single one: the
  channel is made, the test of the loop fails, \<^verbatim>\<open>wg.Wait()\<close> is passed, and the empty
  slice is returned. No goroutine is created and the log stays as it was: no port is
  probed.
\<close>

theorem GetOpenedPorts_empty_range:
  assumes "endp < start" and "0 \<le> threads ps"
  shows "GetOpenedPorts nw ps start endp sched log = Some s \<longleftrightarrow>
     (\<exists>n \<le> 4. sched = replicate n Main \<and>
        s = (init log)\<lparr>mainpc := [MMake, MLoop start, MWait, MReturn, MReturned []] ! n\<rparr>)"
proof -
  have "init log = empty_sweep start log 0"
    by (simp add: empty_sweep_def init_def)
  then show ?thesis
    using empty_sweep_run [OF assms, of 0 nw sched log s]
    by (simp add: GetOpenedPorts_def empty_sweep_def)
qed

theorem GetOpenedPorts_empty_range_witness:
  "(1::int) < 5 \<and> 0 \<le> threads scanner0 \<and>
   GetOpenedPorts nw_up scanner0 5 1 [Main, Main, Main, Main] [] =
     Some \<lparr>mainpc = MReturned [], sem = 0, wg = 0, mu = False, openPorts = [],
           workers = [], netlog = []\<rparr>"
proof -
  have a: "(1::int) < 5" by simp
  have b: "0 \<le> threads scanner0" by (simp add: scanner0_def NewPortScanner_def)
  have "\<exists>n \<le> 4. [Main, Main, Main, Main] = replicate n Main \<and>
     (init [])\<lparr>mainpc := MReturned []\<rparr> =
     (init [])\<lparr>mainpc := [MMake, MLoop 5, MWait, MReturn, MReturned []] ! n\<rparr>"
    by (intro exI [of _ 4]) (simp add: eval_nat_numeral)
  with GetOpenedPorts_empty_range [OF a b, of nw_up "[Main, Main, Main, Main]" "[]"
      "(init [])\<lparr>mainpc := MReturned []\<rparr>"]
  have "GetOpenedPorts nw_up scanner0 5 1 [Main, Main, Main, Main] [] =
      Some ((init [])\<lparr>mainpc := MReturned []\<rparr>)"
    by blast
  with a b show ?thesis by (simp add: init_def)
qed

end
